theory Spec2Isabelle
  imports Main "HOL-Library.AList"
begin

section \<open>keysort: a memoizing adapter between a keyed collection and a comparison sort\<close>

text \<open>
  The repository holds two variants of the adapter \<^verbatim>\<open>keySortable\<close>: the basic one
  (\<^verbatim>\<open>keysort.go\<close>), whose \<^verbatim>\<open>Key\<close> returns the key function's error to the caller, and the
  error-aware one, which records errors per original index and offers \<^verbatim>\<open>Errors\<close>,
  \<^verbatim>\<open>ClearErrors\<close> and \<^verbatim>\<open>RetryFailed\<close>. Both are embedded here by explicit state passing;
  where the two variants use one name, the error-aware definition carries the suffix \<open>E\<close>.

  Go's \<^verbatim>\<open>int\<close> is modelled by \<^typ>\<open>int\<close>: the only arithmetic on indices is the loop
  counter \<^verbatim>\<open>i++\<close> below a slice length, which cannot wrap. A run-time panic (an index out
  of range, a negative length given to \<^verbatim>\<open>make\<close>, a panic inside a method of the wrapped
  collection) is the result \<^term>\<open>None\<close>. A Go \<^verbatim>\<open>error\<close> value is carried by its message.
\<close>

subsection \<open>Slices\<close>

type_synonym err = string

definition in_range :: "int \<Rightarrow> 'a list \<Rightarrow> bool" where
  "in_range i xs \<longleftrightarrow> 0 \<le> i \<and> i < int (length xs)"

text \<open>\<^verbatim>\<open>xs[i]\<close> as an expression: the element, or a panic.\<close>

definition index :: "'a list \<Rightarrow> int \<Rightarrow> 'a option" where
  "index xs i = (if in_range i xs then Some (xs ! nat i) else None)"

subsection \<open>The interface the wrapped collection implements\<close>

text \<open>
  \<^verbatim>\<open>type Interface interface { LessVal; Key; Swap; Len }\<close>. An interface value is a method
  table together with the receiver's data. The method table is the record below; the data
  is a value of type \<^typ>\<open>'w\<close>, which \<^verbatim>\<open>Swap\<close> changes (the receivers in this repository are
  slices, so the change is visible through every copy of the interface value). Keys have
  the type \<^typ>\<open>'k\<close> instead of \<^verbatim>\<open>interface{}\<close>, so the type assertions inside \<^verbatim>\<open>LessVal\<close>
  cannot fail. The methods \<^verbatim>\<open>Key\<close>, \<^verbatim>\<open>Swap\<close> and \<^verbatim>\<open>Len\<close> of the wrapped collection carry the
  suffix \<open>_w\<close>, the plain names being those of the adapter's methods; \<^verbatim>\<open>Key\<close> and \<^verbatim>\<open>Swap\<close>
  may panic.
\<close>

record ('w, 'k) Interface =
  LessVal :: "'k \<Rightarrow> 'k \<Rightarrow> bool"
  Key_w :: "'w \<Rightarrow> int \<Rightarrow> ('k \<times> err option) option"
  Swap_w :: "'w \<Rightarrow> int \<Rightarrow> int \<Rightarrow> 'w option"
  Len_w :: "'w \<Rightarrow> int"

subsection \<open>The adapter state\<close>

text \<open>
  \<^verbatim>\<open>swaps\<close> is the permutation map (position to original index), \<^verbatim>\<open>memo\<close> and \<^verbatim>\<open>errors\<close>
  are Go maps, kept as association lists whose order stands for the unspecified iteration
  order of \<^verbatim>\<open>range\<close>. The slice and the maps are reference types, so the value receivers of
  the methods all act on the same state. The field \<open>calls\<close> is not in the source: it logs,
  in order, the original indexes for which the adapter invoked the user's key function
  \<^verbatim>\<open>wrapped.Key\<close>, so that statements about invocations can be made.
\<close>

record ('w, 'k) keySortable =
  wrapped :: 'w
  swaps :: "int list"
  memo :: "(int \<times> 'k) list"
  calls :: "int list"

record ('w, 'k) keySortableE = "('w, 'k) keySortable" +
  errors :: "(int \<times> err) list"

subsection \<open>Construction\<close>

text \<open>The loop \<^verbatim>\<open>for i := 0; i < wrapped.Len(); i++ { swaps[i] = i }\<close>.\<close>

function fill_swaps :: "int \<Rightarrow> int \<Rightarrow> int list \<Rightarrow> int list option" where
  "fill_swaps i n sw =
     (if i < n then (if in_range i sw then fill_swaps (i + 1) n (sw[nat i := i]) else None)
      else Some sw)"
  by pat_completeness auto
termination
  by (relation "measure (\<lambda>(i, n, sw). nat (n - i))") auto

declare fill_swaps.simps [simp del]

text \<open>\<^verbatim>\<open>make([]int, wrappedLen)\<close> followed by the loop; \<^verbatim>\<open>make\<close> panics on a negative length.\<close>

definition new_swaps :: "int \<Rightarrow> int list option" where
  "new_swaps wrappedLen =
     (if wrappedLen < 0 then None
      else fill_swaps 0 wrappedLen (replicate (nat wrappedLen) 0))"

definition Keysort :: "('w, 'k) Interface \<Rightarrow> 'w \<Rightarrow> ('w, 'k) keySortable option" where
  "Keysort I w =
     (case new_swaps (Len_w I w) of
        None \<Rightarrow> None
      | Some sw \<Rightarrow> Some \<lparr>wrapped = w, swaps = sw, memo = [], calls = []\<rparr>)"

definition KeysortE :: "('w, 'k) Interface \<Rightarrow> 'w \<Rightarrow> ('w, 'k) keySortableE option" where
  "KeysortE I w =
     (case new_swaps (Len_w I w) of
        None \<Rightarrow> None
      | Some sw \<Rightarrow> Some \<lparr>wrapped = w, swaps = sw, memo = [], calls = [], errors = []\<rparr>)"

subsection \<open>Len and Swap (the same text in both variants)\<close>

definition Len :: "('w, 'k) Interface \<Rightarrow> ('w, 'k, 'z) keySortable_scheme \<Rightarrow> int" where
  "Len I ks = Len_w I (wrapped ks)"

text \<open>
  \<^verbatim>\<open>ks.swaps[i], ks.swaps[j] = ks.swaps[j], ks.swaps[i]\<close> reads both elements (a panic when
  either index is out of range, before anything is written), then assigns left to right;
  \<^verbatim>\<open>ks.wrapped.Swap(i, j)\<close> follows.
\<close>

definition Swap ::
  "('w, 'k) Interface \<Rightarrow> int \<Rightarrow> int \<Rightarrow> ('w, 'k, 'z) keySortable_scheme
     \<Rightarrow> ('w, 'k, 'z) keySortable_scheme option" where
  "Swap I i j ks =
     (case index (swaps ks) j of
        None \<Rightarrow> None
      | Some sj \<Rightarrow>
         (case index (swaps ks) i of
            None \<Rightarrow> None
          | Some si \<Rightarrow>
             (case Swap_w I (wrapped ks) i j of
                None \<Rightarrow> None
              | Some w' \<Rightarrow>
                  Some (ks\<lparr>swaps := (swaps ks)[nat i := sj, nat j := si], wrapped := w'\<rparr>))))"

subsection \<open>The basic variant: Key, Less, prime\<close>

text \<open>
  \<^verbatim>\<open>Key(i)\<close> looks up the original index of position \<open>i\<close>; on a memo miss it calls
  \<^verbatim>\<open>ks.wrapped.Key(originalIndex)\<close> and stores the value, whatever the error. The value
  returned, \<^verbatim>\<open>ks.memo[ks.swaps[i]]\<close>, is the entry found or the one just written; the error
  returned is \<^verbatim>\<open>nil\<close> on a hit.
\<close>

definition Key ::
  "('w, 'k) Interface \<Rightarrow> int \<Rightarrow> ('w, 'k) keySortable
     \<Rightarrow> (('k \<times> err option) \<times> ('w, 'k) keySortable) option" where
  "Key I i ks =
     (case index (swaps ks) i of
        None \<Rightarrow> None
      | Some originalIndex \<Rightarrow>
         (case map_of (memo ks) originalIndex of
            Some v \<Rightarrow> Some ((v, None), ks)
          | None \<Rightarrow>
             (case Key_w I (wrapped ks) originalIndex of
                None \<Rightarrow> None
              | Some (v, e) \<Rightarrow>
                  Some ((v, e),
                        ks\<lparr>memo := AList.update originalIndex v (memo ks),
                           calls := calls ks @ [originalIndex]\<rparr>))))"

definition Less ::
  "('w, 'k) Interface \<Rightarrow> int \<Rightarrow> int \<Rightarrow> ('w, 'k) keySortable
     \<Rightarrow> (bool \<times> ('w, 'k) keySortable) option" where
  "Less I i j ks =
     (case Key I i ks of
        None \<Rightarrow> None
      | Some ((IValue, _), ks1) \<Rightarrow>
         (case Key I j ks1 of
            None \<Rightarrow> None
          | Some ((JValue, _), ks2) \<Rightarrow> Some (LessVal I IValue JValue, ks2)))"

text \<open>
  \<^verbatim>\<open>prime\<close> starts worker goroutines that call \<^verbatim>\<open>ks.Key(val)\<close> for every value received and
  sends \<open>0, \<dots>, Len - 1\<close>. The embedding is sequential: the values are processed one
  \<^verbatim>\<open>Key\<close> call at a time in the order sent, which is what a single worker does. The number
  of workers (\<open>parallelism\<close>, or \<^verbatim>\<open>GOMAXPROCS\<close> when it is below one) does not enter the
  sequential result.
\<close>

fun resolve_each ::
  "('w, 'k) Interface \<Rightarrow> int list \<Rightarrow> ('w, 'k) keySortable \<Rightarrow> ('w, 'k) keySortable option" where
  "resolve_each I [] ks = Some ks"
| "resolve_each I (v # vs) ks =
     (case Key I v ks of None \<Rightarrow> None | Some (_, ks') \<Rightarrow> resolve_each I vs ks')"

definition prime ::
  "('w, 'k) Interface \<Rightarrow> int \<Rightarrow> ('w, 'k) keySortable \<Rightarrow> ('w, 'k) keySortable option" where
  "prime I parallelism ks = resolve_each I [0 .. Len I ks - 1] ks"

definition PrimedKeysort ::
  "('w, 'k) Interface \<Rightarrow> 'w \<Rightarrow> int \<Rightarrow> ('w, 'k) keySortable option" where
  "PrimedKeysort I w parallelism =
     (case Keysort I w of None \<Rightarrow> None | Some ks \<Rightarrow> prime I parallelism ks)"

subsection \<open>The error-aware variant: Key, Errors, Less, memoize, ClearErrors, RetryFailed\<close>

text \<open>
  On a memo miss the value is written down whatever happened; an error is noted under the
  original index, a success deletes any error noted there.
\<close>

definition KeyE ::
  "('w, 'k) Interface \<Rightarrow> int \<Rightarrow> ('w, 'k) keySortableE
     \<Rightarrow> ('k \<times> ('w, 'k) keySortableE) option" where
  "KeyE I i ks =
     (case index (swaps ks) i of
        None \<Rightarrow> None
      | Some originalIndex \<Rightarrow>
         (case map_of (memo ks) originalIndex of
            Some v \<Rightarrow> Some (v, ks)
          | None \<Rightarrow>
             (case Key_w I (wrapped ks) originalIndex of
                None \<Rightarrow> None
              | Some (v, e) \<Rightarrow>
                  Some (v,
                        ks\<lparr>memo := AList.update originalIndex v (memo ks),
                           calls := calls ks @ [originalIndex],
                           errors :=
                             (case e of
                                Some msg \<Rightarrow> AList.update originalIndex msg (errors ks)
                              | None \<Rightarrow> AList.delete originalIndex (errors ks))\<rparr>))))"

text \<open>\<^verbatim>\<open>type PrimingError struct { Errors map[int]error }\<close>; \<^verbatim>\<open>Errors()\<close> returns \<^verbatim>\<open>nil\<close> or
  the struct holding the adapter's own error map.\<close>

datatype PrimingError = PrimingError (PrimingError_Errors: "(int \<times> err) list")

definition Errors :: "('w, 'k) keySortableE \<Rightarrow> PrimingError option" where
  "Errors ks = (if length (errors ks) = 0 then None else Some (PrimingError (errors ks)))"

definition LessE ::
  "('w, 'k) Interface \<Rightarrow> int \<Rightarrow> int \<Rightarrow> ('w, 'k) keySortableE
     \<Rightarrow> (bool \<times> ('w, 'k) keySortableE) option" where
  "LessE I i j ks =
     (case KeyE I i ks of
        None \<Rightarrow> None
      | Some (IValue, ks1) \<Rightarrow>
         (case KeyE I j ks1 of
            None \<Rightarrow> None
          | Some (JValue, ks2) \<Rightarrow>
              (if Errors ks2 \<noteq> None then Some (False, ks2)
               else Some (LessVal I IValue JValue, ks2))))"

text \<open>The worker loop \<^verbatim>\<open>for i := range iChan { ks.Key(i) }\<close>, one call at a time.\<close>

fun resolve_eachE ::
  "('w, 'k) Interface \<Rightarrow> int list \<Rightarrow> ('w, 'k) keySortableE
     \<Rightarrow> ('w, 'k) keySortableE option" where
  "resolve_eachE I [] ks = Some ks"
| "resolve_eachE I (v # vs) ks =
     (case KeyE I v ks of None \<Rightarrow> None | Some (_, ks') \<Rightarrow> resolve_eachE I vs ks')"

text \<open>
  \<^verbatim>\<open>memoize(parallelism, genIndexes)\<close>: \<open>genIndexes\<close> is the list of values the generator
  sends on the channel, read off the state in which it runs. As for \<open>prime\<close>, the
  embedding is the sequential schedule.
\<close>

definition memoize ::
  "('w, 'k) Interface \<Rightarrow> int \<Rightarrow> (('w, 'k) keySortableE \<Rightarrow> int list)
     \<Rightarrow> ('w, 'k) keySortableE \<Rightarrow> ('w, 'k) keySortableE option" where
  "memoize I parallelism genIndexes ks = resolve_eachE I (genIndexes ks) ks"

definition allIndexes :: "('w, 'k) Interface \<Rightarrow> ('w, 'k) keySortableE \<Rightarrow> int list" where
  "allIndexes I ks = [0 .. Len I ks - 1]"

text \<open>
  \<^verbatim>\<open>erroredIndexes\<close> collects the keys of the error map into the slice \<^verbatim>\<open>erroredIndices\<close>
  and then runs \<^verbatim>\<open>for i := range erroredIndices { iChan <- i }\<close>: with one loop variable,
  \<^verbatim>\<open>range\<close> over a slice yields the positions \<open>0, 1, \<dots>\<close> of the slice, and these are sent.
\<close>

definition erroredIndexes :: "('w, 'k) keySortableE \<Rightarrow> int list" where
  "erroredIndexes ks =
     (let erroredIndices = map fst (errors ks)
      in [0 .. int (length erroredIndices) - 1])"

text \<open>\<^verbatim>\<open>for k := range ks.errors { delete(ks.errors, k) }\<close>.\<close>

definition ClearErrors :: "('w, 'k) keySortableE \<Rightarrow> ('w, 'k) keySortableE" where
  "ClearErrors ks = ks\<lparr>errors := fold AList.delete (map fst (errors ks)) (errors ks)\<rparr>"

text \<open>
  \<^verbatim>\<open>ks.ClearErrors(); ks.memoize(parallelism, ks.erroredIndexes)\<close>: the generator runs
  inside \<^verbatim>\<open>memoize\<close>, on the error map as \<^verbatim>\<open>ClearErrors\<close> left it.
\<close>

definition RetryFailed ::
  "('w, 'k) Interface \<Rightarrow> int \<Rightarrow> ('w, 'k) keySortableE \<Rightarrow> ('w, 'k) keySortableE option" where
  "RetryFailed I parallelism ks = memoize I parallelism erroredIndexes (ClearErrors ks)"

definition PrimedKeysortE ::
  "('w, 'k) Interface \<Rightarrow> 'w \<Rightarrow> int \<Rightarrow> ('w, 'k) keySortableE option" where
  "PrimedKeysortE I w parallelism =
     (case KeysortE I w of
        None \<Rightarrow> None
      | Some ks \<Rightarrow> memoize I parallelism (allIndexes I) ks)"

subsection \<open>PrimingError.Error\<close>

text \<open>\<^verbatim>\<open>%d\<close> of \<^verbatim>\<open>fmt.Sprintf\<close>: the decimal digits, with a minus sign for a negative number.\<close>

fun digits :: "nat \<Rightarrow> string" where
  "digits n =
     (if n < 10 then [''0123456789'' ! n]
      else digits (n div 10) @ [''0123456789'' ! (n mod 10)])"

declare digits.simps [simp del]

definition fmt_d :: "int \<Rightarrow> string" where
  "fmt_d i = (if i < 0 then CHR ''-'' # digits (nat (- i)) else digits (nat i))"

text \<open>\<^verbatim>\<open>strings.Join(elems, sep)\<close>.\<close>

fun Join :: "string list \<Rightarrow> string \<Rightarrow> string" where
  "Join [] sep = []"
| "Join [x] sep = x"
| "Join (x # y # ys) sep = x @ sep @ Join (y # ys) sep"

text \<open>
  The loop \<^verbatim>\<open>for i, err := range e.Errors\<close> appends \<^verbatim>\<open>fmt.Sprintf("%d: %s", i, err.Error())\<close>
  to \<^verbatim>\<open>errorStrings\<close>, in the iteration order of the map.
\<close>

definition errorStrings :: "PrimingError \<Rightarrow> string list" where
  "errorStrings e = map (\<lambda>(i, msg). fmt_d i @ '': '' @ msg) (PrimingError_Errors e)"

text \<open>
  \<^verbatim>\<open>fmt.Sprintf("Problem pre-computing Key functions.\n%s\n", strings.Join(errorStrings, "\t%s\n"))\<close>;
  the separator is not a format string for \<^verbatim>\<open>Join\<close>, so its \<^verbatim>\<open>%s\<close> stays as it is.
\<close>

definition Error :: "PrimingError \<Rightarrow> string" where
  "Error e =
     ''Problem pre-computing Key functions.'' @ [CHR 0x0A]
       @ Join (errorStrings e) ([CHR 0x09] @ ''%s'' @ [CHR 0x0A]) @ [CHR 0x0A]"

subsection \<open>The collections of the repository's tests\<close>

text \<open>
  \<^verbatim>\<open>type ExampleToSort struct { NotKey, IntKey int; StringKey string }\<close> and
  \<^verbatim>\<open>type SpecimenSliceSorter []ExampleToSort\<close> with its methods \<^verbatim>\<open>Len\<close>, \<^verbatim>\<open>Swap\<close> and \<^verbatim>\<open>At\<close>.
  A slice shares its backing array with every copy of itself, so \<^verbatim>\<open>Swap\<close> on the copy held
  by the adapter changes what \<^verbatim>\<open>At\<close> and \<^verbatim>\<open>Key\<close> read afterwards.
\<close>

record ExampleToSort =
  NotKey :: int
  IntKey :: int
  StringKey :: string

type_synonym SpecimenSliceSorter = "ExampleToSort list"

definition SpecimenSliceSorter_Len :: "SpecimenSliceSorter \<Rightarrow> int" where
  "SpecimenSliceSorter_Len s = int (length s)"

definition SpecimenSliceSorter_Swap ::
  "SpecimenSliceSorter \<Rightarrow> int \<Rightarrow> int \<Rightarrow> SpecimenSliceSorter option" where
  "SpecimenSliceSorter_Swap s i j =
     (case index s j of
        None \<Rightarrow> None
      | Some sj \<Rightarrow>
         (case index s i of
            None \<Rightarrow> None
          | Some si \<Rightarrow> Some (s[nat i := sj, nat j := si])))"

definition SpecimenSliceSorter_At :: "SpecimenSliceSorter \<Rightarrow> int \<Rightarrow> ExampleToSort option" where
  "SpecimenSliceSorter_At s i = index s i"

text \<open>\<^verbatim>\<open>type ByIntKey struct {SpecimenSliceSorter}\<close>: \<^verbatim>\<open>Less\<close> is its own comparator (it makes
  the type a \<^verbatim>\<open>sort.Interface\<close>), \<^verbatim>\<open>LessVal\<close> and \<^verbatim>\<open>Key\<close> make it a \<^verbatim>\<open>keysort.Interface\<close>.\<close>

definition ByIntKey_Less :: "SpecimenSliceSorter \<Rightarrow> int \<Rightarrow> int \<Rightarrow> bool option" where
  "ByIntKey_Less s i j =
     (case SpecimenSliceSorter_At s i of
        None \<Rightarrow> None
      | Some a \<Rightarrow>
         (case SpecimenSliceSorter_At s j of
            None \<Rightarrow> None
          | Some b \<Rightarrow> Some (IntKey a < IntKey b)))"

definition ByIntKey_LessVal :: "int \<Rightarrow> int \<Rightarrow> bool" where
  "ByIntKey_LessVal i j \<longleftrightarrow> i < j"

definition ByIntKey_Key :: "SpecimenSliceSorter \<Rightarrow> int \<Rightarrow> (int \<times> err option) option" where
  "ByIntKey_Key s i =
     (case SpecimenSliceSorter_At s i of None \<Rightarrow> None | Some a \<Rightarrow> Some (IntKey a, None))"

definition ByIntKey :: "(SpecimenSliceSorter, int) Interface" where
  "ByIntKey =
     \<lparr>LessVal = ByIntKey_LessVal, Key_w = ByIntKey_Key,
      Swap_w = SpecimenSliceSorter_Swap, Len_w = SpecimenSliceSorter_Len\<rparr>"

text \<open>
  The tests have no collection whose key function fails. This one is \<open>ByIntKey\<close> with a
  \<^verbatim>\<open>Key\<close> that returns \<^verbatim>\<open>(0, errors.New("bad key"))\<close> for the index \<open>bad\<close> and the element's
  \<^verbatim>\<open>IntKey\<close> otherwise; it serves as the concrete input of the error scenarios.
\<close>

definition FailingAt_Key ::
  "int \<Rightarrow> SpecimenSliceSorter \<Rightarrow> int \<Rightarrow> (int \<times> err option) option" where
  "FailingAt_Key bad s i =
     (if i = bad then Some (0, Some ''bad key'') else ByIntKey_Key s i)"

definition FailingAt :: "int \<Rightarrow> (SpecimenSliceSorter, int) Interface" where
  "FailingAt bad =
     \<lparr>LessVal = ByIntKey_LessVal, Key_w = FailingAt_Key bad,
      Swap_w = SpecimenSliceSorter_Swap, Len_w = SpecimenSliceSorter_Len\<rparr>"

definition elem :: "int \<Rightarrow> ExampleToSort" where
  "elem k = \<lparr>NotKey = 0, IntKey = k, StringKey = []\<rparr>"

subsection \<open>The external sort, and sequences of calls\<close>

text \<open>
  The sort algorithm is not part of the repository: it is any deterministic client of
  \<^verbatim>\<open>sort.Interface\<close>. For a given length such a client is a decision tree: it stops, or
  swaps two positions and goes on, or asks \<^verbatim>\<open>Less(i, j)\<close> and goes on according to the
  answer (first subtree for \<^verbatim>\<open>true\<close>).
\<close>

datatype sorter = Done | DoSwap int int sorter | DoLess int int sorter sorter

record 's sort_Interface =
  sort_Len :: "'s \<Rightarrow> int"
  sort_Less :: "'s \<Rightarrow> int \<Rightarrow> int \<Rightarrow> (bool \<times> 's) option"
  sort_Swap :: "'s \<Rightarrow> int \<Rightarrow> int \<Rightarrow> 's option"

fun run_sorter :: "'s sort_Interface \<Rightarrow> sorter \<Rightarrow> 's \<Rightarrow> 's option" where
  "run_sorter S Done s = Some s"
| "run_sorter S (DoSwap i j t) s =
     (case sort_Swap S s i j of None \<Rightarrow> None | Some s' \<Rightarrow> run_sorter S t s')"
| "run_sorter S (DoLess i j yes no) s =
     (case sort_Less S s i j of
        None \<Rightarrow> None
      | Some (b, s') \<Rightarrow> run_sorter S (if b then yes else no) s')"

text \<open>\<^verbatim>\<open>sort.Sort(data)\<close> for an algorithm given as a tree for each length.\<close>

definition Sort :: "(int \<Rightarrow> sorter) \<Rightarrow> 's sort_Interface \<Rightarrow> 's \<Rightarrow> 's option" where
  "Sort alg S s = run_sorter S (alg (sort_Len S s)) s"

text \<open>The adapter as a \<^verbatim>\<open>sort.Interface\<close>, and \<open>ByIntKey\<close> sorted directly.\<close>

definition keySortable_sort ::
  "('w, 'k) Interface \<Rightarrow> ('w, 'k) keySortable sort_Interface" where
  "keySortable_sort I =
     \<lparr>sort_Len = Len I, sort_Less = (\<lambda>ks i j. Less I i j ks),
      sort_Swap = (\<lambda>ks i j. Swap I i j ks)\<rparr>"

definition ByIntKey_sort :: "SpecimenSliceSorter sort_Interface" where
  "ByIntKey_sort =
     \<lparr>sort_Len = SpecimenSliceSorter_Len,
      sort_Less = (\<lambda>s i j. map_option (\<lambda>b. (b, s)) (ByIntKey_Less s i j)),
      sort_Swap = SpecimenSliceSorter_Swap\<rparr>"

text \<open>
  A sort that moves its pivot before it compares, as a quicksort with Lomuto's partition
  and the pivot taken from the middle does; only its tree for two elements is needed:
  \<^verbatim>\<open>Swap(0, 1)\<close> puts the pivot last, \<^verbatim>\<open>Less(0, 1)\<close> compares the other element with it, and
  the pivot is swapped into its place (\<^verbatim>\<open>Swap(0, 1)\<close> when the other element is not
  smaller, nothing to move otherwise).
\<close>

definition pivot_first :: "int \<Rightarrow> sorter" where
  "pivot_first n = (if n = 2 then DoSwap 0 1 (DoLess 0 1 Done (DoSwap 0 1 Done)) else Done)"

text \<open>Calls a client may make on the basic adapter, and running a sequence of them.\<close>

datatype call = KeyCall int | LessCall int int | SwapCall int int

fun do_call ::
  "('w, 'k) Interface \<Rightarrow> call \<Rightarrow> ('w, 'k) keySortable \<Rightarrow> ('w, 'k) keySortable option" where
  "do_call I (KeyCall i) ks = map_option snd (Key I i ks)"
| "do_call I (LessCall i j) ks = map_option snd (Less I i j ks)"
| "do_call I (SwapCall i j) ks = Swap I i j ks"

fun do_calls ::
  "('w, 'k) Interface \<Rightarrow> call list \<Rightarrow> ('w, 'k) keySortable \<Rightarrow> ('w, 'k) keySortable option" where
  "do_calls I [] ks = Some ks"
| "do_calls I (c # cs) ks =
     (case do_call I c ks of None \<Rightarrow> None | Some ks' \<Rightarrow> do_calls I cs ks')"

text \<open>
  The same for the error-aware adapter. \<open>MemoizeE p vs\<close> is \<^verbatim>\<open>memoize\<close> with a generator
  that sends the values \<open>vs\<close> (all indexes for the primer, any others for a retry pass).
\<close>

datatype callE =
    KeyE_Call int
  | LessE_Call int int
  | SwapE_Call int int
  | ClearErrors_Call
  | RetryFailed_Call int
  | Memoize_Call int "int list"

fun do_callE ::
  "('w, 'k) Interface \<Rightarrow> callE \<Rightarrow> ('w, 'k) keySortableE \<Rightarrow> ('w, 'k) keySortableE option" where
  "do_callE I (KeyE_Call i) ks = map_option snd (KeyE I i ks)"
| "do_callE I (LessE_Call i j) ks = map_option snd (LessE I i j ks)"
| "do_callE I (SwapE_Call i j) ks = Swap I i j ks"
| "do_callE I ClearErrors_Call ks = Some (ClearErrors ks)"
| "do_callE I (RetryFailed_Call p) ks = RetryFailed I p ks"
| "do_callE I (Memoize_Call p vs) ks = memoize I p (\<lambda>_. vs) ks"

fun do_callsE ::
  "('w, 'k) Interface \<Rightarrow> callE list \<Rightarrow> ('w, 'k) keySortableE
     \<Rightarrow> ('w, 'k) keySortableE option" where
  "do_callsE I [] ks = Some ks"
| "do_callsE I (c # cs) ks =
     (case do_callE I c ks of None \<Rightarrow> None | Some ks' \<Rightarrow> do_callsE I cs ks')"

fun clears_errors :: "callE \<Rightarrow> bool" where
  "clears_errors ClearErrors_Call = True"
| "clears_errors (RetryFailed_Call p) = True"
| "clears_errors c = False"

text \<open>A sequence of \<^verbatim>\<open>Swap\<close> calls, on either variant.\<close>

fun swap_each ::
  "('w, 'k) Interface \<Rightarrow> (int \<times> int) list \<Rightarrow> ('w, 'k, 'z) keySortable_scheme
     \<Rightarrow> ('w, 'k, 'z) keySortable_scheme option" where
  "swap_each I [] ks = Some ks"
| "swap_each I ((i, j) # ps) ks =
     (case Swap I i j ks of None \<Rightarrow> None | Some ks' \<Rightarrow> swap_each I ps ks')"

subsection \<open>Properties of the state\<close>

text \<open>The permutation map \<open>sw\<close> is a bijection on the positions \<open>0, \<dots>, n - 1\<close>.\<close>

definition bijection_on :: "int \<Rightarrow> int list \<Rightarrow> bool" where
  "bijection_on n sw \<longleftrightarrow>
     int (length sw) = n \<and> bij_betw (\<lambda>p. sw ! nat p) {0 ..< n} {0 ..< n}"

text \<open>Every original index with a recorded error has a memo entry (the sentinel).\<close>

definition errors_cached :: "('w, 'k) keySortableE \<Rightarrow> bool" where
  "errors_cached ks \<longleftrightarrow> fst ` set (errors ks) \<subseteq> fst ` set (memo ks)"

text \<open>
  From \<open>ks\<close> to \<open>ks'\<close> every memo entry is kept as it is, and the key function was invoked
  only for original indexes that had no memo entry in \<open>ks\<close>.
\<close>

definition memo_kept ::
  "('w, 'k, 'y) keySortable_scheme \<Rightarrow> ('w, 'k, 'z) keySortable_scheme \<Rightarrow> bool" where
  "memo_kept ks ks' \<longleftrightarrow>
     (\<forall>x v. map_of (memo ks) x = Some v \<longrightarrow> map_of (memo ks') x = Some v)
     \<and> (\<exists>new. calls ks' = calls ks @ new \<and> (\<forall>x \<in> set new. map_of (memo ks) x = None))"

text \<open>
  From \<open>ks\<close> to \<open>ks'\<close> every recorded error is kept, and the errors of \<open>ks'\<close> are cached.
\<close>

definition errors_kept ::
  "('w, 'k) keySortableE \<Rightarrow> ('w, 'k) keySortableE \<Rightarrow> bool" where
  "errors_kept ks ks' \<longleftrightarrow>
     errors_cached ks' \<and> (\<forall>x m. map_of (errors ks) x = Some m \<longrightarrow> map_of (errors ks') x = Some m)"

text \<open>The error map has one entry for each of its keys, as a Go map has.\<close>

definition errors_distinct :: "('w, 'k) keySortableE \<Rightarrow> bool" where
  "errors_distinct ks \<longleftrightarrow> distinct (map fst (errors ks))"

text \<open>
  A basic adapter over a slice of the tests is primed when the memo holds, for every
  position, the key of the element now at that position under its original index.
\<close>

definition primed :: "(SpecimenSliceSorter, int) keySortable \<Rightarrow> bool" where
  "primed ks \<longleftrightarrow>
     length (swaps ks) = length (wrapped ks)
     \<and> (\<forall>p < length (wrapped ks).
           map_of (memo ks) (swaps ks ! p) = Some (IntKey (wrapped ks ! p)))"

text \<open>
  The key function of a collection does not depend on the arrangement when no \<^verbatim>\<open>Swap\<close> of
  the collection changes what its \<^verbatim>\<open>Key\<close> returns for any index (a \<^verbatim>\<open>Key\<close> that reads a table
  fixed at construction, say). The slices of the tests are not of this kind.
\<close>

definition arrangement_free :: "('w, 'k) Interface \<Rightarrow> bool" where
  "arrangement_free I \<longleftrightarrow>
     (\<forall>w w' i j x. Swap_w I w i j = Some w' \<longrightarrow> Key_w I w' x = Key_w I w x)"

text \<open>
  Every memo entry of \<open>ks\<close> is what the key function of the collection \<open>w\<close> returns for its
  index, and the wrapped collection of \<open>ks\<close> has the key function of \<open>w\<close>.
\<close>

definition memo_of :: "('w, 'k) Interface \<Rightarrow> 'w \<Rightarrow> ('w, 'k) keySortable \<Rightarrow> bool" where
  "memo_of I w ks \<longleftrightarrow>
     Key_w I (wrapped ks) = Key_w I w
     \<and> (\<forall>x v. map_of (memo ks) x = Some v \<longrightarrow> (\<exists>e. Key_w I w x = Some (v, e)))"

section \<open>The permutation map\<close>

lemma fill_swaps_spec:
  "0 \<le> i \<Longrightarrow> int (length sw) = n \<Longrightarrow>
   \<exists>r. fill_swaps i n sw = Some r \<and> length r = length sw \<and>
       (\<forall>p < length sw. r ! p = (if i \<le> int p then int p else sw ! p))"
proof (induction i n sw rule: fill_swaps.induct)
  case (1 i n sw)
  show ?case
  proof (cases "i < n")
    case False
    with "1.prems" show ?thesis
      by (subst fill_swaps.simps) auto
  next
    case True
    with "1.prems" have r: "in_range i sw" by (simp add: in_range_def)
    from "1.IH"[OF True r] "1.prems"
    obtain r where h: "fill_swaps (i + 1) n (sw[nat i := i]) = Some r"
      "length r = length sw"
      "\<forall>p < length sw. r ! p = (if i + 1 \<le> int p then int p else sw[nat i := i] ! p)"
      by auto
    have "fill_swaps i n sw = Some r"
      using True r h(1) by (subst fill_swaps.simps) simp
    moreover have "\<forall>p < length sw. r ! p = (if i \<le> int p then int p else sw ! p)"
    proof (intro allI impI)
      fix p assume p: "p < length sw"
      have "r ! p = (if i + 1 \<le> int p then int p else sw[nat i := i] ! p)"
        using h(3) p by blast
      then show "r ! p = (if i \<le> int p then int p else sw ! p)"
        using p \<open>0 \<le> i\<close> by (auto simp: nth_list_update)
    qed
    ultimately show ?thesis using h(2) by blast
  qed
qed

lemma new_swaps_identity:
  "new_swaps n = (if n < 0 then None else Some (map int [0 ..< nat n]))"
proof (cases "n < 0")
  case True
  then show ?thesis by (simp add: new_swaps_def)
next
  case False
  then have "int (length (replicate (nat n) (0::int))) = n" by simp
  from fill_swaps_spec[OF _ this, of 0]
  obtain r where r: "fill_swaps 0 n (replicate (nat n) 0) = Some r"
    "length r = nat n" "\<forall>p < nat n. r ! p = int p"
    by auto
  have "r = map int [0 ..< nat n]"
    using r(2,3) by (intro nth_equalityI) auto
  with r(1) False show ?thesis by (simp add: new_swaps_def)
qed

lemma bijection_on_identity: "0 \<le> n \<Longrightarrow> bijection_on n (map int [0 ..< nat n])"
  unfolding bijection_on_def
  by (auto simp: bij_betw_def inj_on_def)

lemma index_Some: "index xs i = Some x \<longleftrightarrow> in_range i xs \<and> x = xs ! nat i"
  by (auto simp: index_def)

lemma index_None: "index xs i = None \<longleftrightarrow> \<not> in_range i xs"
  by (simp add: index_def)

lemma in_range_nat: "in_range i xs \<Longrightarrow> nat i < length xs"
  by (auto simp: in_range_def)

lemma bijection_on_iff:
  "bijection_on n sw \<longleftrightarrow> int (length sw) = n \<and> distinct sw \<and> set sw = {0 ..< n}"
proof (cases "int (length sw) = n")
  case False
  then show ?thesis by (simp add: bijection_on_def)
next
  case True
  have img: "(\<lambda>p. sw ! nat p) ` {0 ..< n} = set sw"
  proof
    show "(\<lambda>p. sw ! nat p) ` {0 ..< n} \<subseteq> set sw"
      using True by auto
    show "set sw \<subseteq> (\<lambda>p. sw ! nat p) ` {0 ..< n}"
    proof
      fix x assume "x \<in> set sw"
      then obtain k where k: "k < length sw" "sw ! k = x"
        by (auto simp: in_set_conv_nth)
      then have "int k \<in> {0 ..< n}" "sw ! nat (int k) = x"
        using True by auto
      then show "x \<in> (\<lambda>p. sw ! nat p) ` {0 ..< n}" by blast
    qed
  qed
  have inj: "inj_on (\<lambda>p. sw ! nat p) {0 ..< n} \<longleftrightarrow> distinct sw"
  proof
    assume i: "inj_on (\<lambda>p. sw ! nat p) {0 ..< n}"
    show "distinct sw"
      unfolding distinct_conv_nth
    proof (intro allI impI)
      fix a b assume ab: "a < length sw" "b < length sw" "a \<noteq> b"
      then have "int a \<in> {0 ..< n}" "int b \<in> {0 ..< n}" "int a \<noteq> int b"
        using True by auto
      with i have "sw ! nat (int a) \<noteq> sw ! nat (int b)"
        unfolding inj_on_def by blast
      then show "sw ! a \<noteq> sw ! b" by simp
    qed
  next
    assume d: "distinct sw"
    show "inj_on (\<lambda>p. sw ! nat p) {0 ..< n}"
    proof (rule inj_onI)
      fix p q assume pq: "p \<in> {0 ..< n}" "q \<in> {0 ..< n}" "sw ! nat p = sw ! nat q"
      then have "nat p < length sw" "nat q < length sw" using True by auto
      with d pq(3) have "nat p = nat q" by (simp add: nth_eq_iff_index_eq)
      with pq(1,2) show "p = q" by auto
    qed
  qed
  show ?thesis
    unfolding bijection_on_def bij_betw_def using True img inj by auto
qed

lemma Swap_Some:
  "Swap I i j ks = Some ks' \<longleftrightarrow>
     in_range i (swaps ks) \<and> in_range j (swaps ks) \<and>
     (\<exists>w'. Swap_w I (wrapped ks) i j = Some w' \<and>
        ks' = ks\<lparr>swaps := (swaps ks)[nat i := swaps ks ! nat j, nat j := swaps ks ! nat i],
                 wrapped := w'\<rparr>)"
  by (auto simp: Swap_def index_Some index_None split: option.splits)

lemma Swap_bijection:
  assumes "Swap I i j ks = Some ks'" and "bijection_on n (swaps ks)"
  shows "bijection_on n (swaps ks')"
proof -
  from assms(1) have r: "nat i < length (swaps ks)" "nat j < length (swaps ks)"
    and s: "swaps ks' = (swaps ks)[nat i := swaps ks ! nat j, nat j := swaps ks ! nat i]"
    by (auto simp: Swap_Some in_range_nat)
  from assms(2) s r show ?thesis
    by (simp add: bijection_on_iff distinct_swap)
qed

lemma swap_each_bijection:
  "swap_each I ps ks = Some ks' \<Longrightarrow> bijection_on n (swaps ks) \<Longrightarrow> bijection_on n (swaps ks')"
proof (induction ps arbitrary: ks)
  case Nil
  then show ?case by simp
next
  case (Cons p ps)
  obtain i j where p: "p = (i, j)" by (cases p)
  from Cons.prems(1) p obtain ks1 where
    s: "Swap I i j ks = Some ks1" "swap_each I ps ks1 = Some ks'"
    by (auto split: option.splits)
  from Swap_bijection[OF s(1) Cons.prems(2)] Cons.IH[OF s(2)] show ?case by blast
qed

lemma Keysort_Some:
  "Keysort I w = Some ks \<longleftrightarrow>
     0 \<le> Len_w I w \<and>
     ks = \<lparr>wrapped = w, swaps = map int [0 ..< nat (Len_w I w)], memo = [], calls = []\<rparr>"
  by (auto simp: Keysort_def new_swaps_identity)

lemma KeysortE_Some:
  "KeysortE I w = Some ks \<longleftrightarrow>
     0 \<le> Len_w I w \<and>
     ks = \<lparr>wrapped = w, swaps = map int [0 ..< nat (Len_w I w)], memo = [], calls = [],
            errors = []\<rparr>"
  by (auto simp: KeysortE_def new_swaps_identity)

lemma swap_each_from_identity:
  "0 \<le> n \<Longrightarrow> swaps ks = map int [0 ..< nat n] \<Longrightarrow> swap_each I ps ks = Some ks'
     \<Longrightarrow> bijection_on n (swaps ks')"
  using swap_each_bijection[of I ps ks ks' n] bijection_on_identity[of n] by simp

text \<open>
  Claim C5. For an adapter built by \<open>Keysort\<close> (either variant) over a collection of
  length \<open>n\<close>, after every prefix of a sequence of \<^verbatim>\<open>Swap\<close> calls that returned, the permutation
  map is a bijection on the positions \<open>0, \<dots>, n - 1\<close>. A call with a position outside the
  range panics and leaves no state to speak of, so the positions need no hypothesis.
\<close>

theorem swaps_remain_bijection:
  "(Keysort I w = Some ks0 \<longrightarrow>
      (\<forall>k ks. swap_each I (take k ps) ks0 = Some ks \<longrightarrow> bijection_on (Len_w I w) (swaps ks)))
   \<and> (KeysortE I w = Some ksE0 \<longrightarrow>
      (\<forall>k ks. swap_each I (take k ps) ksE0 = Some ks \<longrightarrow> bijection_on (Len_w I w) (swaps ks)))"
  by (auto simp: Keysort_Some KeysortE_Some elim: swap_each_from_identity[rotated 2])

theorem swaps_remain_bijection_witness:
  "Keysort ByIntKey [elem 5, elem 3, elem 4]
     = Some \<lparr>wrapped = [elem 5, elem 3, elem 4], swaps = [0, 1, 2], memo = [], calls = []\<rparr>
   \<and> swap_each ByIntKey (take 2 [(0, 2), (1, 2)])
        \<lparr>wrapped = [elem 5, elem 3, elem 4], swaps = [0, 1, 2], memo = [], calls = []\<rparr>
     = Some \<lparr>wrapped = [elem 4, elem 5, elem 3], swaps = [2, 0, 1], memo = [], calls = []\<rparr>
   \<and> bijection_on 3 [2, 0, 1]"
proof -
  let ?s = "[elem 5, elem 3, elem 4]"
  let ?init = "\<lparr>wrapped = ?s, swaps = [0, 1, 2], memo = [], calls = ([]::int list)\<rparr>"
  let ?final = "\<lparr>wrapped = [elem 4, elem 5, elem 3], swaps = [2, 0, 1], memo = [], calls = ([]::int list)\<rparr>"
  have a: "Keysort ByIntKey ?s = Some ?init"
    by (simp add: Keysort_Some ByIntKey_def SpecimenSliceSorter_Len_def eval_nat_numeral)
  have b: "swap_each ByIntKey (take 2 [(0, 2), (1, 2)]) ?init = Some ?final"
    by (simp add: Swap_def index_def in_range_def ByIntKey_def SpecimenSliceSorter_Swap_def)
  have l: "Len_w ByIntKey ?s = 3"
    by (simp add: ByIntKey_def SpecimenSliceSorter_Len_def)
  from swaps_remain_bijection[THEN conjunct1, rule_format, OF a b] l
  have "bijection_on 3 (swaps ?final)" by simp
  with a b show ?thesis by simp
qed

lemma exchange_twice:
  assumes "a < length xs" "b < length xs" "ys = xs[a := xs ! b, b := xs ! a]"
  shows "ys[a := ys ! b, b := ys ! a] = xs"
  using assms by (auto intro!: nth_equalityI simp: nth_list_update)

lemma exchange_same: "xs[a := xs ! a, a := xs ! a] = xs"
  by simp

lemma exchange_commute:
  assumes "a < length xs" "b < length xs"
  shows "xs[b := xs ! a, a := xs ! b] = xs[a := xs ! b, b := xs ! a]"
  using assms by (auto intro!: nth_equalityI simp: nth_list_update)

text \<open>
  Claim C10. On the permutation map, \<^verbatim>\<open>Swap(i, j)\<close> twice is the identity, \<^verbatim>\<open>Swap(i, i)\<close> is
  the identity, and \<^verbatim>\<open>Swap(j, i)\<close> has the effect of \<^verbatim>\<open>Swap(i, j)\<close>; in both variants, since
  \<open>Swap\<close> is the same on each.
\<close>

theorem Swap_involution_identity_symmetry:
  "(Swap I i j ks = Some ks1 \<and> Swap I i j ks1 = Some ks2 \<longrightarrow> swaps ks2 = swaps ks)
   \<and> (Swap I i i ks = Some ks3 \<longrightarrow> swaps ks3 = swaps ks)
   \<and> (Swap I i j ks = Some ks1 \<and> Swap I j i ks = Some ks4 \<longrightarrow> swaps ks4 = swaps ks1)"
proof (intro conjI impI)
  assume h: "Swap I i j ks = Some ks1 \<and> Swap I i j ks1 = Some ks2"
  then have r: "nat i < length (swaps ks)" "nat j < length (swaps ks)"
    and s1: "swaps ks1 = (swaps ks)[nat i := swaps ks ! nat j, nat j := swaps ks ! nat i]"
    and s2: "swaps ks2 = (swaps ks1)[nat i := swaps ks1 ! nat j, nat j := swaps ks1 ! nat i]"
    by (auto simp: Swap_Some in_range_nat)
  from exchange_twice[OF r s1] s2 show "swaps ks2 = swaps ks" by simp
next
  assume "Swap I i i ks = Some ks3"
  then show "swaps ks3 = swaps ks" by (auto simp: Swap_Some)
next
  assume h: "Swap I i j ks = Some ks1 \<and> Swap I j i ks = Some ks4"
  then have r: "nat i < length (swaps ks)" "nat j < length (swaps ks)"
    and s1: "swaps ks1 = (swaps ks)[nat i := swaps ks ! nat j, nat j := swaps ks ! nat i]"
    and s4: "swaps ks4 = (swaps ks)[nat j := swaps ks ! nat i, nat i := swaps ks ! nat j]"
    by (auto simp: Swap_Some in_range_nat)
  from exchange_commute[OF r] s1 s4 show "swaps ks4 = swaps ks1" by simp
qed

lemma Swap_ByIntKey_eval:
  "Swap ByIntKey i j \<lparr>wrapped = s, swaps = sw, memo = m, calls = c, \<dots> = z\<rparr> =
     (if in_range j sw \<and> in_range i sw \<and> in_range j s \<and> in_range i s
      then Some \<lparr>wrapped = s[nat i := s ! nat j, nat j := s ! nat i],
                 swaps = sw[nat i := sw ! nat j, nat j := sw ! nat i], memo = m, calls = c,
                 \<dots> = z\<rparr>
      else None)"
  by (simp add: Swap_def index_def ByIntKey_def SpecimenSliceSorter_Swap_def)

theorem Swap_involution_identity_symmetry_witness:
  "Swap ByIntKey 0 1 \<lparr>wrapped = [elem 5, elem 3], swaps = [0, 1], memo = [], calls = []\<rparr>
     = Some \<lparr>wrapped = [elem 3, elem 5], swaps = [1, 0], memo = [], calls = []\<rparr>
   \<and> Swap ByIntKey 0 1 \<lparr>wrapped = [elem 3, elem 5], swaps = [1, 0], memo = [], calls = []\<rparr>
     = Some \<lparr>wrapped = [elem 5, elem 3], swaps = [0, 1], memo = [], calls = []\<rparr>
   \<and> Swap ByIntKey 0 0 \<lparr>wrapped = [elem 5, elem 3], swaps = [0, 1], memo = [], calls = []\<rparr>
     = Some \<lparr>wrapped = [elem 5, elem 3], swaps = [0, 1], memo = [], calls = []\<rparr>
   \<and> Swap ByIntKey 1 0 \<lparr>wrapped = [elem 5, elem 3], swaps = [0, 1], memo = [], calls = []\<rparr>
     = Some \<lparr>wrapped = [elem 3, elem 5], swaps = [1, 0], memo = [], calls = []\<rparr>"
proof -
  let ?a = "\<lparr>wrapped = [elem 5, elem 3], swaps = [0, 1], memo = [], calls = ([]::int list)\<rparr>"
  let ?b = "\<lparr>wrapped = [elem 3, elem 5], swaps = [1, 0], memo = [], calls = ([]::int list)\<rparr>"
  have e1: "Swap ByIntKey 0 1 ?a = Some ?b" and e2: "Swap ByIntKey 0 1 ?b = Some ?a"
    and e3: "Swap ByIntKey 0 0 ?a = Some ?a" and e4: "Swap ByIntKey 1 0 ?a = Some ?b"
    by (simp_all add: Swap_ByIntKey_eval in_range_def)
  note t = Swap_involution_identity_symmetry[of ByIntKey 0 1 ?a ?b ?a ?a ?b]
  from t e1 e2 e3 e4 show ?thesis by simp
qed

section \<open>Evaluation on concrete collections\<close>

lemma Keysort_eq:
  "Keysort I w =
     (if Len_w I w < 0 then None
      else Some \<lparr>wrapped = w, swaps = map int [0 ..< nat (Len_w I w)], memo = [], calls = []\<rparr>)"
  by (simp add: Keysort_def new_swaps_identity)

lemma KeysortE_eq:
  "KeysortE I w =
     (if Len_w I w < 0 then None
      else Some \<lparr>wrapped = w, swaps = map int [0 ..< nat (Len_w I w)], memo = [], calls = [],
                 errors = []\<rparr>)"
  by (simp add: KeysortE_def new_swaps_identity)

lemma ByIntKey_methods:
  "LessVal ByIntKey = ByIntKey_LessVal" "Key_w ByIntKey = ByIntKey_Key"
  "Swap_w ByIntKey = SpecimenSliceSorter_Swap" "Len_w ByIntKey = SpecimenSliceSorter_Len"
  by (simp_all add: ByIntKey_def)

lemma FailingAt_methods:
  "LessVal (FailingAt bad) = ByIntKey_LessVal" "Key_w (FailingAt bad) = FailingAt_Key bad"
  "Swap_w (FailingAt bad) = SpecimenSliceSorter_Swap"
  "Len_w (FailingAt bad) = SpecimenSliceSorter_Len"
  by (simp_all add: FailingAt_def)

lemma IntKey_elem: "IntKey (elem k) = k"
  by (simp add: elem_def)

lemmas eval_defs =
  Key_def KeyE_def Less_def LessE_def Errors_def Swap_def Len_def index_def in_range_def
  ByIntKey_methods FailingAt_methods IntKey_elem
  ByIntKey_Key_def ByIntKey_LessVal_def ByIntKey_Less_def FailingAt_Key_def
  SpecimenSliceSorter_At_def SpecimenSliceSorter_Swap_def SpecimenSliceSorter_Len_def
  Keysort_eq KeysortE_eq eval_nat_numeral

text \<open>
  \<open>ClearErrors\<close> empties the error map. \<open>RetryFailed\<close> then finds it empty, so the slice
  \<^verbatim>\<open>erroredIndices\<close> is empty, nothing is sent to the workers and no \<open>Key\<close> call is made.
\<close>

lemma fold_delete_all: "fst ` set al \<subseteq> set ks \<Longrightarrow> fold AList.delete ks al = []"
proof (induction ks arbitrary: al)
  case Nil
  then show ?case by simp
next
  case (Cons k ks)
  have "fst ` set (AList.delete k al) \<subseteq> set ks"
    using Cons.prems by (auto simp: AList.delete_eq)
  with Cons.IH show ?case by simp
qed

lemma ClearErrors_eq: "ClearErrors ks = ks\<lparr>errors := []\<rparr>"
  by (simp add: ClearErrors_def fold_delete_all)

lemma RetryFailed_eq: "RetryFailed I parallelism ks = Some (ks\<lparr>errors := []\<rparr>)"
  by (simp add: RetryFailed_def memoize_def erroredIndexes_def ClearErrors_eq)

text \<open>
  Claim C6. \<open>Keysort\<close> builds the identity map and \<open>Swap\<close> exchanges two entries and
  forwards the swap (\<open>Keysort_eq\<close>, \<open>Swap_Some\<close>). The scenario of the claim, run on the
  tests' own collection with the keys \<open>[5, 3]\<close>: after \<^verbatim>\<open>Swap(0, 1)\<close> the element with key
  \<open>3\<close> is at position \<open>0\<close> and the map sends position \<open>0\<close> to the original index \<open>1\<close>; on
  the memo miss \<^verbatim>\<open>Key(0)\<close> calls \<^verbatim>\<open>wrapped.Key(1)\<close>, which reads the slot \<open>1\<close> of the swapped
  slice, and returns \<open>5\<close>, not \<open>3\<close>.
\<close>

theorem Key_after_Swap_unprimed:
  "Keysort ByIntKey [elem 5, elem 3]
     = Some \<lparr>wrapped = [elem 5, elem 3], swaps = [0, 1], memo = [], calls = []\<rparr>
   \<and> Swap ByIntKey 0 1 \<lparr>wrapped = [elem 5, elem 3], swaps = [0, 1], memo = [], calls = []\<rparr>
     = Some \<lparr>wrapped = [elem 3, elem 5], swaps = [1, 0], memo = [], calls = []\<rparr>
   \<and> Key ByIntKey 0 \<lparr>wrapped = [elem 3, elem 5], swaps = [1, 0], memo = [], calls = []\<rparr>
     = Some ((5, None),
             \<lparr>wrapped = [elem 3, elem 5], swaps = [1, 0], memo = [(1, 5)], calls = [1]\<rparr>)"
  by (simp add: eval_defs)

text \<open>Primed, the same scenario finds the key \<open>3\<close> in the memo.\<close>

lemma Key_after_Swap_primed:
  "PrimedKeysort ByIntKey [elem 5, elem 3] parallelism
     = Some \<lparr>wrapped = [elem 5, elem 3], swaps = [0, 1], memo = [(0, 5), (1, 3)],
             calls = [0, 1]\<rparr>
   \<and> Swap ByIntKey 0 1
       \<lparr>wrapped = [elem 5, elem 3], swaps = [0, 1], memo = [(0, 5), (1, 3)], calls = [0, 1]\<rparr>
     = Some \<lparr>wrapped = [elem 3, elem 5], swaps = [1, 0], memo = [(0, 5), (1, 3)],
             calls = [0, 1]\<rparr>
   \<and> Key ByIntKey 0
       \<lparr>wrapped = [elem 3, elem 5], swaps = [1, 0], memo = [(0, 5), (1, 3)], calls = [0, 1]\<rparr>
     = Some ((3, None),
             \<lparr>wrapped = [elem 3, elem 5], swaps = [1, 0], memo = [(0, 5), (1, 3)],
              calls = [0, 1]\<rparr>)"
  by (simp add: PrimedKeysort_def prime_def eval_defs upto.simps)

text \<open>
  Claim C2. The collection \<open>[5, 3]\<close> sorted by \<open>pivot_first\<close>: through the adapter the keys
  are resolved after the first swap, each from the slot of its original index, so the
  comparison is made on exchanged keys and the collection ends as \<open>[5, 3]\<close>; sorted
  directly with \<^verbatim>\<open>ByIntKey.Less\<close> it ends as \<open>[3, 5]\<close>.
\<close>

theorem pivot_first_through_Keysort:
  "Keysort ByIntKey [elem 5, elem 3]
     = Some \<lparr>wrapped = [elem 5, elem 3], swaps = [0, 1], memo = [], calls = []\<rparr>
   \<and> Sort pivot_first (keySortable_sort ByIntKey)
        \<lparr>wrapped = [elem 5, elem 3], swaps = [0, 1], memo = [], calls = []\<rparr>
     = Some \<lparr>wrapped = [elem 5, elem 3], swaps = [0, 1], memo = [(1, 5), (0, 3)],
             calls = [1, 0]\<rparr>
   \<and> Sort pivot_first ByIntKey_sort [elem 5, elem 3] = Some [elem 3, elem 5]"
  by (simp add: Sort_def pivot_first_def keySortable_sort_def ByIntKey_sort_def
        eval_defs)

text \<open>\<open>pivot_first\<close> sorts every two-element collection when it is run directly.\<close>

lemma pivot_first_sorts_directly:
  "Sort pivot_first ByIntKey_sort [a, b] = Some (if IntKey b < IntKey a then [b, a] else [a, b])"
  by (simp add: Sort_def pivot_first_def ByIntKey_sort_def eval_defs)

text \<open>
  Claim C1. Six elements whose key function fails for the original index \<open>3\<close>, primed:
  the error map holds the index \<open>3\<close>. \<^verbatim>\<open>RetryFailed(1)\<close> clears the error map and returns
  with the log of key function invocations unchanged: the key function is invoked for no
  index at all, also not for \<open>3\<close>.
\<close>

theorem RetryFailed_invokes_nothing:
  "PrimedKeysortE (FailingAt 3) (map elem [13, 11, 9, 12, 8, 10]) 1
     = Some \<lparr>wrapped = map elem [13, 11, 9, 12, 8, 10], swaps = [0, 1, 2, 3, 4, 5],
             memo = [(0, 13), (1, 11), (2, 9), (3, 0), (4, 8), (5, 10)],
             calls = [0, 1, 2, 3, 4, 5], errors = [(3, ''bad key'')]\<rparr>
   \<and> RetryFailed (FailingAt 3) 1
        \<lparr>wrapped = map elem [13, 11, 9, 12, 8, 10], swaps = [0, 1, 2, 3, 4, 5],
         memo = [(0, 13), (1, 11), (2, 9), (3, 0), (4, 8), (5, 10)],
         calls = [0, 1, 2, 3, 4, 5], errors = [(3, ''bad key'')]\<rparr>
     = Some \<lparr>wrapped = map elem [13, 11, 9, 12, 8, 10], swaps = [0, 1, 2, 3, 4, 5],
             memo = [(0, 13), (1, 11), (2, 9), (3, 0), (4, 8), (5, 10)],
             calls = [0, 1, 2, 3, 4, 5], errors = []\<rparr>"
  by (simp add: PrimedKeysortE_def memoize_def allIndexes_def RetryFailed_eq
        eval_defs upto.simps)

section \<open>The memo\<close>

lemma memo_kept_refl: "memo_kept ks ks"
  by (simp add: memo_kept_def)

lemma memo_kept_same: "memo ks' = memo ks \<Longrightarrow> calls ks' = calls ks \<Longrightarrow> memo_kept ks ks'"
  by (simp add: memo_kept_def)

lemma memo_kept_trans:
  assumes "memo_kept a b" "memo_kept b c"
  shows "memo_kept a c"
proof -
  from assms(1) obtain n1 where
    k1: "\<forall>x v. map_of (memo a) x = Some v \<longrightarrow> map_of (memo b) x = Some v"
    and c1: "calls b = calls a @ n1" "\<forall>x \<in> set n1. map_of (memo a) x = None"
    unfolding memo_kept_def by blast
  from assms(2) obtain n2 where
    k2: "\<forall>x v. map_of (memo b) x = Some v \<longrightarrow> map_of (memo c) x = Some v"
    and c2: "calls c = calls b @ n2" "\<forall>x \<in> set n2. map_of (memo b) x = None"
    unfolding memo_kept_def by blast
  have "\<forall>x \<in> set n2. map_of (memo a) x = None"
  proof
    fix x assume "x \<in> set n2"
    with c2(2) have "map_of (memo b) x = None" by blast
    with k1 show "map_of (memo a) x = None" by (cases "map_of (memo a) x") auto
  qed
  with c1 c2(1) have "calls c = calls a @ (n1 @ n2) \<and> (\<forall>x \<in> set (n1 @ n2). map_of (memo a) x = None)"
    by auto
  with k1 k2 show ?thesis unfolding memo_kept_def by blast
qed

lemma memo_kept_miss:
  assumes "map_of (memo ks) oi = None" "memo ks' = AList.update oi v (memo ks)"
    "calls ks' = calls ks @ [oi]"
  shows "memo_kept ks ks'"
proof -
  have "map_of (memo ks') x = Some w" if "map_of (memo ks) x = Some w" for x w
    using that assms(1,2) by (cases "x = oi") (simp_all add: update_conv')
  moreover have "\<forall>x \<in> set [oi]. map_of (memo ks) x = None"
    using assms(1) by simp
  ultimately show ?thesis
    unfolding memo_kept_def using assms(3) by blast
qed

lemma Key_Some:
  "Key I i ks = Some (r, ks') \<longleftrightarrow>
     (\<exists>oi. index (swaps ks) i = Some oi \<and>
        ((\<exists>v. map_of (memo ks) oi = Some v \<and> r = (v, None) \<and> ks' = ks)
         \<or> (map_of (memo ks) oi = None \<and>
             (\<exists>v e. Key_w I (wrapped ks) oi = Some (v, e) \<and> r = (v, e) \<and>
                ks' = ks\<lparr>memo := AList.update oi v (memo ks), calls := calls ks @ [oi]\<rparr>))))"
  by (auto simp: Key_def split: option.splits)

lemma KeyE_Some:
  "KeyE I i ks = Some (r, ks') \<longleftrightarrow>
     (\<exists>oi. index (swaps ks) i = Some oi \<and>
        ((map_of (memo ks) oi = Some r \<and> ks' = ks)
         \<or> (map_of (memo ks) oi = None \<and>
             (\<exists>e. Key_w I (wrapped ks) oi = Some (r, e) \<and>
                ks' = ks\<lparr>memo := AList.update oi r (memo ks), calls := calls ks @ [oi],
                         errors := (case e of Some msg \<Rightarrow> AList.update oi msg (errors ks)
                                           | None \<Rightarrow> AList.delete oi (errors ks))\<rparr>))))"
  by (auto simp: KeyE_def split: option.splits)

lemma Key_kept: "Key I i ks = Some (r, ks') \<Longrightarrow> memo_kept ks ks'"
  unfolding Key_Some by (auto intro: memo_kept_refl memo_kept_miss)

lemma KeyE_kept: "KeyE I i ks = Some (r, ks') \<Longrightarrow> memo_kept ks ks'"
  unfolding KeyE_Some by (auto intro: memo_kept_refl memo_kept_miss)

lemma Key_frame: "Key I i ks = Some (r, ks') \<Longrightarrow> swaps ks' = swaps ks \<and> wrapped ks' = wrapped ks"
  unfolding Key_Some by auto

lemma KeyE_frame: "KeyE I i ks = Some (r, ks') \<Longrightarrow> swaps ks' = swaps ks \<and> wrapped ks' = wrapped ks"
  unfolding KeyE_Some by auto

lemma Less_Some:
  "Less I i j ks = Some (b, ks') \<longleftrightarrow>
     (\<exists>a ea c ec ks1. Key I i ks = Some ((a, ea), ks1) \<and> Key I j ks1 = Some ((c, ec), ks')
        \<and> b = LessVal I a c)"
  by (auto simp: Less_def split: option.splits prod.splits)

lemma LessE_Some:
  "LessE I i j ks = Some (b, ks') \<longleftrightarrow>
     (\<exists>a c ks1. KeyE I i ks = Some (a, ks1) \<and> KeyE I j ks1 = Some (c, ks')
        \<and> b = (if Errors ks' \<noteq> None then False else LessVal I a c))"
  by (auto simp: LessE_def split: option.splits prod.splits)

lemma Less_kept: "Less I i j ks = Some (b, ks') \<Longrightarrow> memo_kept ks ks'"
  unfolding Less_Some by (blast intro: memo_kept_trans Key_kept)

lemma LessE_kept: "LessE I i j ks = Some (b, ks') \<Longrightarrow> memo_kept ks ks'"
  unfolding LessE_Some by (blast intro: memo_kept_trans KeyE_kept)

lemma Swap_kept: "Swap I i j ks = Some ks' \<Longrightarrow> memo_kept ks ks'"
  by (auto simp: Swap_Some intro: memo_kept_same)

lemma resolve_eachE_kept: "resolve_eachE I vs ks = Some ks' \<Longrightarrow> memo_kept ks ks'"
proof (induction vs arbitrary: ks)
  case Nil
  then show ?case by (simp add: memo_kept_refl)
next
  case (Cons v vs)
  then obtain r ks1 where "KeyE I v ks = Some (r, ks1)" "resolve_eachE I vs ks1 = Some ks'"
    by (auto split: option.splits)
  with Cons.IH show ?case by (blast intro: memo_kept_trans KeyE_kept)
qed

lemma resolve_each_kept: "resolve_each I vs ks = Some ks' \<Longrightarrow> memo_kept ks ks'"
proof (induction vs arbitrary: ks)
  case Nil
  then show ?case by (simp add: memo_kept_refl)
next
  case (Cons v vs)
  then obtain r ks1 where "Key I v ks = Some (r, ks1)" "resolve_each I vs ks1 = Some ks'"
    by (auto split: option.splits)
  with Cons.IH show ?case by (blast intro: memo_kept_trans Key_kept)
qed

lemma memoize_kept: "memoize I p gen ks = Some ks' \<Longrightarrow> memo_kept ks ks'"
  by (simp add: memoize_def resolve_eachE_kept)

lemma do_call_kept: "do_call I c ks = Some ks' \<Longrightarrow> memo_kept ks ks'"
  by (cases c) (auto intro: Key_kept Less_kept Swap_kept)

lemma do_callE_kept: "do_callE I c ks = Some ks' \<Longrightarrow> memo_kept ks ks'"
  by (cases c)
     (auto simp: ClearErrors_eq RetryFailed_eq
           intro: KeyE_kept LessE_kept Swap_kept memoize_kept memo_kept_same)

lemma do_calls_kept: "do_calls I cs ks = Some ks' \<Longrightarrow> memo_kept ks ks'"
proof (induction cs arbitrary: ks)
  case Nil
  then show ?case by (simp add: memo_kept_refl)
next
  case (Cons c cs)
  then obtain ks1 where "do_call I c ks = Some ks1" "do_calls I cs ks1 = Some ks'"
    by (auto split: option.splits)
  with Cons.IH show ?case by (blast intro: memo_kept_trans do_call_kept)
qed

lemma do_callsE_kept: "do_callsE I cs ks = Some ks' \<Longrightarrow> memo_kept ks ks'"
proof (induction cs arbitrary: ks)
  case Nil
  then show ?case by (simp add: memo_kept_refl)
next
  case (Cons c cs)
  then obtain ks1 where "do_callE I c ks = Some ks1" "do_callsE I cs ks1 = Some ks'"
    by (auto split: option.splits)
  with Cons.IH show ?case by (blast intro: memo_kept_trans do_callE_kept)
qed

lemma memo_kept_entry:
  "memo_kept ks ks' \<Longrightarrow> map_of (memo ks) oi = Some v \<Longrightarrow>
     map_of (memo ks') oi = Some v \<and> (\<exists>new. calls ks' = calls ks @ new \<and> oi \<notin> set new)"
  unfolding memo_kept_def by fastforce

lemma Key_hit:
  "index (swaps ks) i = Some oi \<Longrightarrow> map_of (memo ks) oi = Some v \<Longrightarrow>
     Key I i ks = Some ((v, None), ks)"
  by (simp add: Key_def)

lemma KeyE_hit:
  "index (swaps ks) i = Some oi \<Longrightarrow> map_of (memo ks) oi = Some v \<Longrightarrow>
     KeyE I i ks = Some (v, ks)"
  by (simp add: KeyE_def)

text \<open>
  Claim C3. In a sequential execution of either variant: once the memo holds the key \<open>v\<close>
  of the original index \<open>oi\<close>, after any sequence of \<open>Key\<close>, \<open>Less\<close> and \<open>Swap\<close> calls that
  returns (and, in the error-aware variant, \<open>ClearErrors\<close> and \<open>memoize\<close> passes, with no
  \<open>RetryFailed\<close> and no error recorded for \<open>oi\<close> at the start) the entry is still \<open>v\<close>, the key
  function has not been invoked for \<open>oi\<close> again, and \<open>Key\<close> at any position that holds \<open>oi\<close>
  returns \<open>v\<close> and leaves the state as it is.
\<close>

theorem cached_key_not_recomputed:
  "(map_of (memo ks) oi = Some v \<and> do_calls I cs ks = Some ks' \<longrightarrow>
      map_of (memo ks') oi = Some v
      \<and> (\<exists>new. calls ks' = calls ks @ new \<and> oi \<notin> set new)
      \<and> (\<forall>i. index (swaps ks') i = Some oi \<longrightarrow> Key I i ks' = Some ((v, None), ks')))
   \<and> (map_of (memo kse) oi = Some v \<and> map_of (errors kse) oi = None
        \<and> (\<forall>p. RetryFailed_Call p \<notin> set cse) \<and> do_callsE I cse kse = Some kse' \<longrightarrow>
      map_of (memo kse') oi = Some v
      \<and> (\<exists>new. calls kse' = calls kse @ new \<and> oi \<notin> set new)
      \<and> (\<forall>i. index (swaps kse') i = Some oi \<longrightarrow> KeyE I i kse' = Some (v, kse')))"
proof -
  have a: "map_of (memo ks') oi = Some v
      \<and> (\<exists>new. calls ks' = calls ks @ new \<and> oi \<notin> set new)
      \<and> (\<forall>i. index (swaps ks') i = Some oi \<longrightarrow> Key I i ks' = Some ((v, None), ks'))"
    if h: "map_of (memo ks) oi = Some v" "do_calls I cs ks = Some ks'"
  proof -
    from h(2) have "memo_kept ks ks'" by (rule do_calls_kept)
    from memo_kept_entry[OF this h(1)] show ?thesis by (simp add: Key_hit)
  qed
  have b: "map_of (memo kse') oi = Some v
      \<and> (\<exists>new. calls kse' = calls kse @ new \<and> oi \<notin> set new)
      \<and> (\<forall>i. index (swaps kse') i = Some oi \<longrightarrow> KeyE I i kse' = Some (v, kse'))"
    if h: "map_of (memo kse) oi = Some v" "do_callsE I cse kse = Some kse'"
  proof -
    from h(2) have "memo_kept kse kse'" by (rule do_callsE_kept)
    from memo_kept_entry[OF this h(1)] show ?thesis by (simp add: KeyE_hit)
  qed
  from a b show ?thesis by blast
qed

lemmas call_defs = memoize_def allIndexes_def RetryFailed_eq ClearErrors_eq

theorem cached_key_not_recomputed_witness:
  "map_of (memo \<lparr>wrapped = [elem 5, elem 3], swaps = [0, 1], memo = [(0, 5)], calls = [0]\<rparr>) 0
     = Some 5
   \<and> do_calls (FailingAt 1) [LessCall 0 1, SwapCall 0 1, LessCall 0 1, KeyCall 1]
        \<lparr>wrapped = [elem 5, elem 3], swaps = [0, 1], memo = [(0, 5)], calls = [0]\<rparr>
     = Some \<lparr>wrapped = [elem 3, elem 5], swaps = [1, 0], memo = [(0, 5), (1, 0)],
             calls = [0, 1]\<rparr>
   \<and> Key (FailingAt 1) 1
        \<lparr>wrapped = [elem 3, elem 5], swaps = [1, 0], memo = [(0, 5), (1, 0)], calls = [0, 1]\<rparr>
     = Some ((5, None),
        \<lparr>wrapped = [elem 3, elem 5], swaps = [1, 0], memo = [(0, 5), (1, 0)], calls = [0, 1]\<rparr>)
   \<and> map_of (memo \<lparr>wrapped = [elem 5, elem 3], swaps = [0, 1], memo = [(0, 5)], calls = [0],
                    errors = []\<rparr>) 0 = Some 5
   \<and> map_of (errors \<lparr>wrapped = [elem 5, elem 3], swaps = [0, 1], memo = [(0, 5)], calls = [0],
                    errors = []\<rparr>) 0 = None
   \<and> (\<forall>p. RetryFailed_Call p \<notin> set [LessE_Call 0 1, SwapE_Call 0 1, LessE_Call 1 0])
   \<and> do_callsE (FailingAt 1) [LessE_Call 0 1, SwapE_Call 0 1, LessE_Call 1 0]
        \<lparr>wrapped = [elem 5, elem 3], swaps = [0, 1], memo = [(0, 5)], calls = [0], errors = []\<rparr>
     = Some \<lparr>wrapped = [elem 3, elem 5], swaps = [1, 0], memo = [(0, 5), (1, 0)],
             calls = [0, 1], errors = [(1, ''bad key'')]\<rparr>
   \<and> KeyE (FailingAt 1) 1
        \<lparr>wrapped = [elem 3, elem 5], swaps = [1, 0], memo = [(0, 5), (1, 0)],
         calls = [0, 1], errors = [(1, ''bad key'')]\<rparr>
     = Some (5, \<lparr>wrapped = [elem 3, elem 5], swaps = [1, 0], memo = [(0, 5), (1, 0)],
                 calls = [0, 1], errors = [(1, ''bad key'')]\<rparr>)"
proof -
  let ?a = "\<lparr>wrapped = [elem 5, elem 3], swaps = [0, 1], memo = [(0, 5)], calls = [0::int]\<rparr>"
  let ?b = "\<lparr>wrapped = [elem 3, elem 5], swaps = [1, 0], memo = [(0, 5), (1, 0)],
             calls = [0::int, 1]\<rparr>"
  let ?c = "\<lparr>wrapped = [elem 5, elem 3], swaps = [0, 1], memo = [(0, 5)], calls = [0::int],
             errors = []\<rparr>"
  let ?d = "\<lparr>wrapped = [elem 3, elem 5], swaps = [1, 0], memo = [(0, 5), (1, 0)],
             calls = [0::int, 1], errors = [(1, ''bad key'')]\<rparr>"
  have m: "map_of (memo ?a) 0 = Some 5" by simp
  have r: "do_calls (FailingAt 1) [LessCall 0 1, SwapCall 0 1, LessCall 0 1, KeyCall 1] ?a = Some ?b"
    by (simp add: eval_defs)
  have i: "index (swaps ?b) 1 = Some 0" by (simp add: eval_defs)
  have me: "map_of (memo ?c) 0 = Some 5" "map_of (errors ?c) 0 = None"
    "\<forall>p. RetryFailed_Call p \<notin> set [LessE_Call 0 1, SwapE_Call 0 1, LessE_Call 1 0]"
    by simp_all
  have re: "do_callsE (FailingAt 1) [LessE_Call 0 1, SwapE_Call 0 1, LessE_Call 1 0] ?c = Some ?d"
    by (simp add: eval_defs)
  have ie: "index (swaps ?d) 1 = Some 0" by (simp add: eval_defs)
  note t = cached_key_not_recomputed
    [of ?a 0 5 "FailingAt 1" "[LessCall 0 1, SwapCall 0 1, LessCall 0 1, KeyCall 1]" ?b
        ?c "[LessE_Call 0 1, SwapE_Call 0 1, LessE_Call 1 0]" ?d]
  from t m r i have k: "Key (FailingAt 1) 1 ?b = Some ((5, None), ?b)" by blast
  from t me re ie have ke: "KeyE (FailingAt 1) 1 ?d = Some (5, ?d)" by blast
  from m r k me re ke show ?thesis by blast
qed

text \<open>
  Claim C7. In the error-aware variant (sequential execution): a memo entry, once present,
  is the same after any sequence of \<open>Key\<close>, \<open>Less\<close>, \<open>Swap\<close>, \<open>ClearErrors\<close>, \<open>RetryFailed\<close> and
  \<open>memoize\<close> calls, the key function is not invoked again for its original index, and
  \<open>Key\<close> at a position holding that index returns the entry and changes nothing. A failed
  key computation caches the value it returned together with the error. No \<open>memoize\<close>
  pass, whatever indexes its generator sends, re-runs the key function for a cached index,
  and \<open>RetryFailed\<close> always returns, with the memo and the invocation log as they were.
\<close>

theorem memo_entry_permanent:
  "(map_of (memo ks) oi = Some v \<and> do_callsE I cs ks = Some ks' \<longrightarrow>
      map_of (memo ks') oi = Some v
      \<and> (\<exists>new. calls ks' = calls ks @ new \<and> oi \<notin> set new)
      \<and> (\<forall>i. index (swaps ks') i = Some oi \<longrightarrow> KeyE I i ks' = Some (v, ks')))
   \<and> (index (swaps s) i = Some x \<and> map_of (memo s) x = None
        \<and> Key_w I (wrapped s) x = Some (u, Some msg) \<longrightarrow>
      (\<exists>s'. KeyE I i s = Some (u, s') \<and> map_of (memo s') x = Some u
         \<and> map_of (errors s') x = Some msg))
   \<and> (map_of (memo ks) oi = Some v \<and> memoize I p gen ks = Some ksm \<longrightarrow>
      map_of (memo ksm) oi = Some v \<and> (\<exists>new. calls ksm = calls ks @ new \<and> oi \<notin> set new))
   \<and> (\<exists>ksr. RetryFailed I p ks = Some ksr \<and> memo ksr = memo ks \<and> calls ksr = calls ks)"
proof -
  have a: "map_of (memo ks') oi = Some v
      \<and> (\<exists>new. calls ks' = calls ks @ new \<and> oi \<notin> set new)
      \<and> (\<forall>i. index (swaps ks') i = Some oi \<longrightarrow> KeyE I i ks' = Some (v, ks'))"
    if h: "map_of (memo ks) oi = Some v" "do_callsE I cs ks = Some ks'"
  proof -
    from h(2) have "memo_kept ks ks'" by (rule do_callsE_kept)
    from memo_kept_entry[OF this h(1)] show ?thesis by (simp add: KeyE_hit)
  qed
  have b: "\<exists>s'. KeyE I i s = Some (u, s') \<and> map_of (memo s') x = Some u
         \<and> map_of (errors s') x = Some msg"
    if "index (swaps s) i = Some x" "map_of (memo s) x = None"
       "Key_w I (wrapped s) x = Some (u, Some msg)"
    using that by (simp add: KeyE_def update_conv')
  have c: "map_of (memo ksm) oi = Some v \<and> (\<exists>new. calls ksm = calls ks @ new \<and> oi \<notin> set new)"
    if h: "map_of (memo ks) oi = Some v" "memoize I p gen ks = Some ksm"
  proof -
    from h(2) have "memo_kept ks ksm" by (rule memoize_kept)
    from memo_kept_entry[OF this h(1)] show ?thesis .
  qed
  have d: "\<exists>ksr. RetryFailed I p ks = Some ksr \<and> memo ksr = memo ks \<and> calls ksr = calls ks"
    by (simp add: RetryFailed_eq)
  from a b c d show ?thesis by blast
qed

theorem memo_entry_permanent_witness:
  "KeyE (FailingAt 0) 0
      \<lparr>wrapped = [elem 5, elem 3], swaps = [0, 1], memo = [], calls = [], errors = []\<rparr>
     = Some (0, \<lparr>wrapped = [elem 5, elem 3], swaps = [0, 1], memo = [(0, 0)], calls = [0],
                 errors = [(0, ''bad key'')]\<rparr>)
   \<and> do_callsE (FailingAt 0)
        [LessE_Call 0 1, SwapE_Call 0 1, ClearErrors_Call, RetryFailed_Call 1,
         Memoize_Call 1 [0, 1], KeyE_Call 1]
        \<lparr>wrapped = [elem 5, elem 3], swaps = [0, 1], memo = [(0, 0)], calls = [0],
         errors = [(0, ''bad key'')]\<rparr>
     = Some \<lparr>wrapped = [elem 3, elem 5], swaps = [1, 0], memo = [(0, 0), (1, 3)],
             calls = [0, 1], errors = []\<rparr>
   \<and> KeyE (FailingAt 0) 1
        \<lparr>wrapped = [elem 3, elem 5], swaps = [1, 0], memo = [(0, 0), (1, 3)],
         calls = [0, 1], errors = []\<rparr>
     = Some (0, \<lparr>wrapped = [elem 3, elem 5], swaps = [1, 0], memo = [(0, 0), (1, 3)],
                 calls = [0, 1], errors = []\<rparr>)
   \<and> memoize (FailingAt 0) 1 (allIndexes (FailingAt 0))
        \<lparr>wrapped = [elem 5, elem 3], swaps = [0, 1], memo = [(0, 0)], calls = [0],
         errors = [(0, ''bad key'')]\<rparr>
     = Some \<lparr>wrapped = [elem 5, elem 3], swaps = [0, 1], memo = [(0, 0), (1, 3)],
             calls = [0, 1], errors = [(0, ''bad key'')]\<rparr>"
proof -
  let ?a = "\<lparr>wrapped = [elem 5, elem 3], swaps = [0, 1], memo = ([]::(int \<times> int) list),
             calls = ([]::int list), errors = []\<rparr>"
  let ?b = "\<lparr>wrapped = [elem 5, elem 3], swaps = [0, 1], memo = [(0, 0)], calls = [0::int],
             errors = [(0, ''bad key'')]\<rparr>"
  let ?c = "\<lparr>wrapped = [elem 3, elem 5], swaps = [1, 0], memo = [(0, 0), (1, 3)],
             calls = [0::int, 1], errors = ([]::(int \<times> err) list)\<rparr>"
  let ?d = "\<lparr>wrapped = [elem 5, elem 3], swaps = [0, 1], memo = [(0, 0), (1, 3)],
             calls = [0::int, 1], errors = [(0, ''bad key'')]\<rparr>"
  let ?cs = "[LessE_Call 0 1, SwapE_Call 0 1, ClearErrors_Call, RetryFailed_Call 1,
              Memoize_Call 1 [0, 1], KeyE_Call 1]"
  have h2: "index (swaps ?a) 0 = Some 0" "map_of (memo ?a) 0 = None"
    "Key_w (FailingAt 0) (wrapped ?a) 0 = Some (0, Some ''bad key'')"
    by (simp_all add: eval_defs)
  have h1: "map_of (memo ?b) 0 = Some 0" by simp
  have r: "do_callsE (FailingAt 0) ?cs ?b = Some ?c"
    by (simp add: eval_defs call_defs)
  have i: "index (swaps ?c) 1 = Some 0" by (simp add: eval_defs)
  have m: "memoize (FailingAt 0) 1 (allIndexes (FailingAt 0)) ?b = Some ?d"
    by (simp add: eval_defs call_defs upto.simps)
  note t = memo_entry_permanent
    [where I = "FailingAt 0" and ks = ?b and oi = 0 and v = 0 and cs = ?cs and ks' = ?c
       and s = ?a and i = 0 and x = 0 and u = 0 and msg = "''bad key''"
       and p = 1 and gen = "allIndexes (FailingAt 0)" and ksm = ?d]
  from t h1 r i have k: "KeyE (FailingAt 0) 1 ?c = Some (0, ?c)" by blast
  from t h2 obtain s' where "KeyE (FailingAt 0) 0 ?a = Some (0, s')" by blast
  moreover have "KeyE (FailingAt 0) 0 ?a = Some (0, ?b)" by (simp add: eval_defs)
  ultimately show ?thesis using r k m by simp
qed

section \<open>Recorded errors\<close>

lemma not_in_keys: "map_of al k = None \<longleftrightarrow> k \<notin> fst ` set al"
  by (simp add: map_of_eq_None_iff)

lemma errors_kept_refl: "errors_cached ks \<Longrightarrow> errors_kept ks ks"
  by (simp add: errors_kept_def)

lemma errors_kept_trans: "errors_kept a b \<Longrightarrow> errors_kept b c \<Longrightarrow> errors_kept a c"
  by (simp add: errors_kept_def)

lemma errors_kept_cached: "errors_kept ks ks' \<Longrightarrow> errors_cached ks'"
  by (simp add: errors_kept_def)

lemma errors_kept_nonempty:
  assumes "errors_kept ks ks'" "errors ks \<noteq> []"
  shows "errors ks' \<noteq> []"
proof -
  from assms(2) obtain k m al where "errors ks = (k, m) # al"
    by (cases "errors ks") auto
  then have "map_of (errors ks) k = Some m" by simp
  with assms(1) have "map_of (errors ks') k = Some m" by (simp add: errors_kept_def)
  then show ?thesis by auto
qed

lemma errors_kept_miss:
  assumes c: "errors_cached ks" and m: "map_of (memo ks) oi = None"
    and ks': "ks' = ks\<lparr>memo := AList.update oi r (memo ks), calls := calls ks @ [oi],
                 errors := (case e of Some msg \<Rightarrow> AList.update oi msg (errors ks)
                                   | None \<Rightarrow> AList.delete oi (errors ks))\<rparr>"
  shows "errors_kept ks ks'"
proof -
  from m have "oi \<notin> fst ` set (memo ks)" by (simp add: not_in_keys)
  with c have fresh: "oi \<notin> fst ` set (errors ks)" unfolding errors_cached_def by blast
  have e': "errors ks' = (case e of Some msg \<Rightarrow> AList.update oi msg (errors ks)
                                   | None \<Rightarrow> errors ks)"
    using ks' fresh by (cases e) simp_all
  have m': "memo ks' = AList.update oi r (memo ks)" using ks' by simp
  have "fst ` set (errors ks') \<subseteq> insert oi (fst ` set (errors ks))"
    using e' by (cases e) (auto simp: dom_update)
  moreover have "fst ` set (memo ks') = insert oi (fst ` set (memo ks))"
    using m' by (simp add: dom_update)
  ultimately have "errors_cached ks'"
    using c unfolding errors_cached_def by blast
  moreover have "map_of (errors ks') x = Some msg" if "map_of (errors ks) x = Some msg" for x msg
  proof -
    from that have "x \<in> fst ` set (errors ks)" by (metis not_in_keys option.distinct(1))
    with fresh have "x \<noteq> oi" by blast
    with that e' show ?thesis by (cases e) (simp_all add: update_conv')
  qed
  ultimately show ?thesis unfolding errors_kept_def by blast
qed

lemma KeyE_errors_kept:
  "KeyE I i ks = Some (r, ks') \<Longrightarrow> errors_cached ks \<Longrightarrow> errors_kept ks ks'"
  unfolding KeyE_Some by (auto intro: errors_kept_refl errors_kept_miss)

lemma LessE_errors_kept:
  "LessE I i j ks = Some (b, ks') \<Longrightarrow> errors_cached ks \<Longrightarrow> errors_kept ks ks'"
  unfolding LessE_Some
  by (blast intro: errors_kept_trans KeyE_errors_kept errors_kept_cached)

lemma Swap_errors_kept:
  fixes ks :: "('w, 'k) keySortableE"
  shows "Swap I i j ks = Some ks' \<Longrightarrow> errors_cached ks \<Longrightarrow> errors_kept ks ks'"
proof -
  assume "Swap I i j ks = Some ks'" "errors_cached ks"
  then have "errors ks' = errors ks" "memo ks' = memo ks" "errors_cached ks"
    by (auto simp: Swap_Some)
  then show "errors_kept ks ks'"
    by (simp add: errors_kept_def errors_cached_def)
qed

lemma resolve_eachE_errors_kept:
  "resolve_eachE I vs ks = Some ks' \<Longrightarrow> errors_cached ks \<Longrightarrow> errors_kept ks ks'"
proof (induction vs arbitrary: ks)
  case Nil
  then show ?case by (simp add: errors_kept_refl)
next
  case (Cons v vs)
  then obtain r ks1 where s: "KeyE I v ks = Some (r, ks1)" "resolve_eachE I vs ks1 = Some ks'"
    by (auto split: option.splits)
  from KeyE_errors_kept[OF s(1) Cons.prems(2)] have k: "errors_kept ks ks1" .
  from Cons.IH[OF s(2) errors_kept_cached[OF k]] k show ?case
    by (blast intro: errors_kept_trans)
qed

lemma do_callE_errors_kept:
  "do_callE I c ks = Some ks' \<Longrightarrow> \<not> clears_errors c \<Longrightarrow> errors_cached ks \<Longrightarrow> errors_kept ks ks'"
  by (cases c)
     (auto simp: memoize_def
           intro: KeyE_errors_kept LessE_errors_kept Swap_errors_kept resolve_eachE_errors_kept)

lemma do_callE_errors_cached:
  "do_callE I c ks = Some ks' \<Longrightarrow> errors_cached ks \<Longrightarrow> errors_cached ks'"
proof (cases "clears_errors c")
  case False
  assume "do_callE I c ks = Some ks'" "errors_cached ks"
  with False show ?thesis by (blast intro: errors_kept_cached do_callE_errors_kept)
next
  case True
  assume "do_callE I c ks = Some ks'" "errors_cached ks"
  with True show ?thesis
    by (cases c) (auto simp: ClearErrors_eq RetryFailed_eq errors_cached_def)
qed

lemma do_callsE_errors_cached:
  "do_callsE I cs ks = Some ks' \<Longrightarrow> errors_cached ks \<Longrightarrow> errors_cached ks'"
proof (induction cs arbitrary: ks)
  case Nil
  then show ?case by simp
next
  case (Cons c cs)
  then obtain ks1 where s: "do_callE I c ks = Some ks1" "do_callsE I cs ks1 = Some ks'"
    by (auto split: option.splits)
  from Cons.IH[OF s(2) do_callE_errors_cached[OF s(1) Cons.prems(2)]] show ?case .
qed

lemma do_callsE_errors_kept:
  "do_callsE I cs ks = Some ks' \<Longrightarrow> \<forall>c \<in> set cs. \<not> clears_errors c \<Longrightarrow> errors_cached ks
     \<Longrightarrow> errors_kept ks ks'"
proof (induction cs arbitrary: ks)
  case Nil
  then show ?case by (simp add: errors_kept_refl)
next
  case (Cons c cs)
  then obtain ks1 where s: "do_callE I c ks = Some ks1" "do_callsE I cs ks1 = Some ks'"
    by (auto split: option.splits)
  from Cons.prems(2) have n: "\<not> clears_errors c" "\<forall>c \<in> set cs. \<not> clears_errors c" by auto
  from do_callE_errors_kept[OF s(1) n(1) Cons.prems(3)] have k: "errors_kept ks ks1" .
  from Cons.IH[OF s(2) n(2) errors_kept_cached[OF k]] k show ?case
    by (blast intro: errors_kept_trans)
qed

lemma KeysortE_errors_cached: "KeysortE I w = Some ks \<Longrightarrow> errors_cached ks"
  by (auto simp: KeysortE_Some errors_cached_def)

lemma LessE_false_on_errors: "LessE I i j ks = Some (b, ks') \<Longrightarrow> errors ks' \<noteq> [] \<Longrightarrow> \<not> b"
  unfolding LessE_Some by (auto simp: Errors_def)

text \<open>
  Claim C4. In the error-aware variant, \<open>Less\<close> returns \<^verbatim>\<open>false\<close> whenever the error map is
  not empty after its two \<open>Key\<close> calls. And for an adapter built by \<open>KeysortE\<close> and used through
  any calls: once the error map is not empty, it stays so through every sequence of calls
  without \<open>ClearErrors\<close> and \<open>RetryFailed\<close>, so every \<open>Less\<close> after such a sequence returns
  \<^verbatim>\<open>false\<close>, for every pair of positions.
\<close>

theorem LessE_false_while_errors:
  "(LessE I p q s = Some (c, s') \<and> errors s' \<noteq> [] \<longrightarrow> \<not> c)
   \<and> (KeysortE I w = Some ks0 \<and> do_callsE I cs0 ks0 = Some ks \<and> errors ks \<noteq> []
        \<and> (\<forall>c \<in> set cs. \<not> clears_errors c) \<and> do_callsE I cs ks = Some ks1
        \<and> LessE I i j ks1 = Some (b, ks2)
      \<longrightarrow> \<not> b \<and> errors ks2 \<noteq> [])"
proof -
  have "\<not> b \<and> errors ks2 \<noteq> []"
    if h: "KeysortE I w = Some ks0" "do_callsE I cs0 ks0 = Some ks" "errors ks \<noteq> []"
      "\<forall>c \<in> set cs. \<not> clears_errors c" "do_callsE I cs ks = Some ks1"
      "LessE I i j ks1 = Some (b, ks2)"
  proof -
    from do_callsE_errors_cached[OF h(2) KeysortE_errors_cached[OF h(1)]]
    have c: "errors_cached ks" .
    from do_callsE_errors_kept[OF h(5) h(4) c] have k1: "errors_kept ks ks1" .
    from LessE_errors_kept[OF h(6) errors_kept_cached[OF k1]] have k2: "errors_kept ks1 ks2" .
    from errors_kept_nonempty[OF errors_kept_trans[OF k1 k2] h(3)] have "errors ks2 \<noteq> []" .
    with LessE_false_on_errors[OF h(6)] show ?thesis by blast
  qed
  with LessE_false_on_errors[of I p q s c s'] show ?thesis by blast
qed

theorem LessE_false_while_errors_witness:
  "LessE (FailingAt 0) 0 1
      \<lparr>wrapped = [elem 5, elem 3], swaps = [0, 1], memo = [], calls = [], errors = []\<rparr>
     = Some (False, \<lparr>wrapped = [elem 5, elem 3], swaps = [0, 1], memo = [(0, 0), (1, 3)],
                     calls = [0, 1], errors = [(0, ''bad key'')]\<rparr>)
   \<and> LessVal (FailingAt 0) 0 3
   \<and> KeysortE (FailingAt 0) [elem 5, elem 3]
     = Some \<lparr>wrapped = [elem 5, elem 3], swaps = [0, 1], memo = [], calls = [], errors = []\<rparr>
   \<and> do_callsE (FailingAt 0) [KeyE_Call 0]
        \<lparr>wrapped = [elem 5, elem 3], swaps = [0, 1], memo = [], calls = [], errors = []\<rparr>
     = Some \<lparr>wrapped = [elem 5, elem 3], swaps = [0, 1], memo = [(0, 0)], calls = [0],
             errors = [(0, ''bad key'')]\<rparr>
   \<and> do_callsE (FailingAt 0) [SwapE_Call 0 1, KeyE_Call 0]
        \<lparr>wrapped = [elem 5, elem 3], swaps = [0, 1], memo = [(0, 0)], calls = [0],
         errors = [(0, ''bad key'')]\<rparr>
     = Some \<lparr>wrapped = [elem 3, elem 5], swaps = [1, 0], memo = [(0, 0), (1, 5)],
             calls = [0, 1], errors = [(0, ''bad key'')]\<rparr>
   \<and> LessE (FailingAt 0) 1 0
        \<lparr>wrapped = [elem 3, elem 5], swaps = [1, 0], memo = [(0, 0), (1, 5)],
         calls = [0, 1], errors = [(0, ''bad key'')]\<rparr>
     = Some (False, \<lparr>wrapped = [elem 3, elem 5], swaps = [1, 0], memo = [(0, 0), (1, 5)],
                     calls = [0, 1], errors = [(0, ''bad key'')]\<rparr>)
   \<and> LessVal (FailingAt 0) 0 5"
proof -
  let ?a = "\<lparr>wrapped = [elem 5, elem 3], swaps = [0, 1], memo = ([]::(int \<times> int) list),
             calls = ([]::int list), errors = []\<rparr>"
  let ?a' = "\<lparr>wrapped = [elem 5, elem 3], swaps = [0, 1], memo = [(0, 0), (1, 3)],
              calls = [0::int, 1], errors = [(0, ''bad key'')]\<rparr>"
  let ?b = "\<lparr>wrapped = [elem 5, elem 3], swaps = [0, 1], memo = [(0, 0)], calls = [0::int],
             errors = [(0, ''bad key'')]\<rparr>"
  let ?c = "\<lparr>wrapped = [elem 3, elem 5], swaps = [1, 0], memo = [(0, 0), (1, 5)],
             calls = [0::int, 1], errors = [(0, ''bad key'')]\<rparr>"
  have k: "KeysortE (FailingAt 0) [elem 5, elem 3] = Some ?a"
    by (simp add: eval_defs)
  have r0: "do_callsE (FailingAt 0) [KeyE_Call 0] ?a = Some ?b"
    by (simp add: eval_defs)
  have n: "errors ?b \<noteq> []" "\<forall>c \<in> set [SwapE_Call 0 1, KeyE_Call 0]. \<not> clears_errors c"
    by simp_all
  have r1: "do_callsE (FailingAt 0) [SwapE_Call 0 1, KeyE_Call 0] ?b = Some ?c"
    by (simp add: eval_defs)
  have v: "LessVal (FailingAt 0) 0 3" "LessVal (FailingAt 0) 0 5"
    by (simp_all add: eval_defs)
  have "\<exists>b. LessE (FailingAt 0) 0 1 ?a = Some (b, ?a')"
    and "\<exists>b. LessE (FailingAt 0) 1 0 ?c = Some (b, ?c)"
    by (auto simp: eval_defs)
  then obtain b1 b2 where l: "LessE (FailingAt 0) 0 1 ?a = Some (b1, ?a')"
    "LessE (FailingAt 0) 1 0 ?c = Some (b2, ?c)"
    by blast
  note t = LessE_false_while_errors
    [where I = "FailingAt 0" and p = 0 and q = 1 and s = ?a and c = b1 and s' = ?a'
       and w = "[elem 5, elem 3]" and ?ks0.0 = ?a and ?cs0.0 = "[KeyE_Call 0]" and ks = ?b
       and cs = "[SwapE_Call 0 1, KeyE_Call 0]" and ?ks1.0 = ?c and i = 1 and j = 0
       and b = b2 and ?ks2.0 = ?c]
  from t l k r0 n r1 have "\<not> b1" "\<not> b2" by simp_all
  with l k r0 r1 v show ?thesis by simp
qed

text \<open>
  Claim C8. \<open>ClearErrors\<close> leaves the error map empty (so \<open>Errors\<close> is \<^verbatim>\<open>nil\<close>) and the memo,
  the permutation map, the wrapped collection and the invocation log as they were.
\<close>

theorem ClearErrors_only_clears_errors:
  "errors (ClearErrors ks) = [] \<and> Errors (ClearErrors ks) = None
   \<and> memo (ClearErrors ks) = memo ks \<and> swaps (ClearErrors ks) = swaps ks
   \<and> wrapped (ClearErrors ks) = wrapped ks \<and> calls (ClearErrors ks) = calls ks"
  by (simp add: ClearErrors_eq Errors_def)

lemma KeyE_errors_distinct:
  "KeyE I i ks = Some (r, ks') \<Longrightarrow> errors_distinct ks \<Longrightarrow> errors_distinct ks'"
  unfolding KeyE_Some errors_distinct_def
  by (auto simp: distinct_update distinct_delete split: option.splits)

lemma LessE_errors_distinct:
  "LessE I i j ks = Some (b, ks') \<Longrightarrow> errors_distinct ks \<Longrightarrow> errors_distinct ks'"
  unfolding LessE_Some by (blast intro: KeyE_errors_distinct)

lemma resolve_eachE_errors_distinct:
  "resolve_eachE I vs ks = Some ks' \<Longrightarrow> errors_distinct ks \<Longrightarrow> errors_distinct ks'"
proof (induction vs arbitrary: ks)
  case Nil
  then show ?case by simp
next
  case (Cons v vs)
  then obtain r ks1 where s: "KeyE I v ks = Some (r, ks1)" "resolve_eachE I vs ks1 = Some ks'"
    by (auto split: option.splits)
  from Cons.IH[OF s(2) KeyE_errors_distinct[OF s(1) Cons.prems(2)]] show ?case .
qed

lemma do_callE_errors_distinct:
  "do_callE I c ks = Some ks' \<Longrightarrow> errors_distinct ks \<Longrightarrow> errors_distinct ks'"
proof (cases c)
  case (SwapE_Call i j)
  assume "do_callE I c ks = Some ks'" "errors_distinct ks"
  with SwapE_Call have "errors ks' = errors ks" "errors_distinct ks"
    by (auto simp: Swap_Some)
  then show ?thesis by (simp add: errors_distinct_def)
qed (auto simp: ClearErrors_eq RetryFailed_eq memoize_def errors_distinct_def[of "_\<lparr>errors := []\<rparr>"]
       intro: KeyE_errors_distinct LessE_errors_distinct resolve_eachE_errors_distinct)

lemma do_callsE_errors_distinct:
  "do_callsE I cs ks = Some ks' \<Longrightarrow> errors_distinct ks \<Longrightarrow> errors_distinct ks'"
proof (induction cs arbitrary: ks)
  case Nil
  then show ?case by simp
next
  case (Cons c cs)
  then obtain ks1 where s: "do_callE I c ks = Some ks1" "do_callsE I cs ks1 = Some ks'"
    by (auto split: option.splits)
  from Cons.IH[OF s(2) do_callE_errors_distinct[OF s(1) Cons.prems(2)]] show ?case .
qed

lemma KeysortE_errors_distinct: "KeysortE I w = Some ks \<Longrightarrow> errors_distinct ks"
  by (auto simp: KeysortE_Some errors_distinct_def)

text \<open>
  Claim C9. For an adapter built by \<open>KeysortE\<close> and used through any calls, \<open>Errors\<close> is
  \<^verbatim>\<open>nil\<close> exactly when no original index has a recorded error; otherwise the
  \<open>PrimingError\<close> returned holds the recorded errors, each index once, and the strings from
  which \<open>Error\<close> builds its message are exactly one \<^verbatim>\<open>"index: message"\<close> for each recorded
  pair (whatever the iteration order).
\<close>

theorem Errors_aggregate:
  "KeysortE I w = Some ks0 \<and> do_callsE I cs ks0 = Some ks \<longrightarrow>
     (Errors ks = None \<longleftrightarrow> (\<forall>i. map_of (errors ks) i = None))
     \<and> (\<forall>e. Errors ks = Some e \<longrightarrow>
           map_of (PrimingError_Errors e) = map_of (errors ks)
           \<and> distinct (map fst (PrimingError_Errors e))
           \<and> set (errorStrings e) =
               {fmt_d i @ '': '' @ msg | i msg. map_of (errors ks) i = Some msg})"
proof (rule impI)
  assume h: "KeysortE I w = Some ks0 \<and> do_callsE I cs ks0 = Some ks"
  then have d: "distinct (map fst (errors ks))"
    using do_callsE_errors_distinct[of I cs ks0 ks] KeysortE_errors_distinct[of I w ks0]
    by (simp add: errors_distinct_def)
  have n: "Errors ks = None \<longleftrightarrow> (\<forall>i. map_of (errors ks) i = None)"
  proof -
    have "(\<forall>i. map_of (errors ks) i = None) \<longleftrightarrow> errors ks = []"
      by (cases "errors ks") (auto simp: fun_eq_iff)
    then show ?thesis by (simp add: Errors_def)
  qed
  have s: "set (map (\<lambda>(i, msg). fmt_d i @ '': '' @ msg) (errors ks)) =
             {fmt_d i @ '': '' @ msg | i msg. map_of (errors ks) i = Some msg}"
    using d by (auto simp: map_of_eq_Some_iff image_iff) 
  show "(Errors ks = None \<longleftrightarrow> (\<forall>i. map_of (errors ks) i = None))
     \<and> (\<forall>e. Errors ks = Some e \<longrightarrow>
           map_of (PrimingError_Errors e) = map_of (errors ks)
           \<and> distinct (map fst (PrimingError_Errors e))
           \<and> set (errorStrings e) =
               {fmt_d i @ '': '' @ msg | i msg. map_of (errors ks) i = Some msg})"
    using n d s by (auto simp: Errors_def errorStrings_def split: if_splits)
qed

theorem Errors_aggregate_witness:
  "KeysortE (FailingAt 3) (map elem [13, 11, 9, 12, 8, 10])
     = Some \<lparr>wrapped = map elem [13, 11, 9, 12, 8, 10], swaps = [0, 1, 2, 3, 4, 5],
             memo = [], calls = [], errors = []\<rparr>
   \<and> do_callsE (FailingAt 3) [Memoize_Call 1 [0, 1, 2, 3, 4, 5]]
        \<lparr>wrapped = map elem [13, 11, 9, 12, 8, 10], swaps = [0, 1, 2, 3, 4, 5],
         memo = [], calls = [], errors = []\<rparr>
     = Some \<lparr>wrapped = map elem [13, 11, 9, 12, 8, 10], swaps = [0, 1, 2, 3, 4, 5],
             memo = [(0, 13), (1, 11), (2, 9), (3, 0), (4, 8), (5, 10)],
             calls = [0, 1, 2, 3, 4, 5], errors = [(3, ''bad key'')]\<rparr>
   \<and> Errors \<lparr>wrapped = map elem [13, 11, 9, 12, 8, 10], swaps = [0, 1, 2, 3, 4, 5],
             memo = [(0, 13::int), (1, 11), (2, 9), (3, 0), (4, 8), (5, 10)],
             calls = [0, 1, 2, 3, 4, 5], errors = [(3, ''bad key'')]\<rparr>
     = Some (PrimingError [(3, ''bad key'')])
   \<and> set (errorStrings (PrimingError [(3, ''bad key'')])) =
       {fmt_d i @ '': '' @ msg | i msg. map_of [(3::int, ''bad key'')] i = Some msg}
   \<and> Error (PrimingError [(3, ''bad key'')]) =
       ''Problem pre-computing Key functions.'' @ [CHR 0x0A] @ ''3: bad key'' @ [CHR 0x0A]"
proof -
  let ?w = "map elem [13, 11, 9, 12, 8, 10]"
  let ?a = "\<lparr>wrapped = ?w, swaps = [0, 1, 2, 3, 4, 5], memo = ([]::(int \<times> int) list),
             calls = ([]::int list), errors = []\<rparr>"
  let ?b = "\<lparr>wrapped = ?w, swaps = [0, 1, 2, 3, 4, 5],
             memo = [(0, 13::int), (1, 11), (2, 9), (3, 0), (4, 8), (5, 10)],
             calls = [0::int, 1, 2, 3, 4, 5], errors = [(3, ''bad key'')]\<rparr>"
  have k: "KeysortE (FailingAt 3) ?w = Some ?a"
    by (simp add: eval_defs)
  have r: "do_callsE (FailingAt 3) [Memoize_Call 1 [0, 1, 2, 3, 4, 5]] ?a = Some ?b"
    by (simp add: eval_defs call_defs)
  have e: "Errors ?b = Some (PrimingError [(3, ''bad key'')])"
    by (simp add: Errors_def)
  have s: "Error (PrimingError [(3, ''bad key'')]) =
       ''Problem pre-computing Key functions.'' @ [CHR 0x0A] @ ''3: bad key'' @ [CHR 0x0A]"
    by (simp add: Error_def errorStrings_def fmt_d_def digits.simps)
  note t = Errors_aggregate[of "FailingAt 3" ?w ?a "[Memoize_Call 1 [0, 1, 2, 3, 4, 5]]" ?b]
  have "set (errorStrings (PrimingError [(3, ''bad key'')])) =
       {fmt_d i @ '': '' @ msg | i msg. map_of (errors ?b) i = Some msg}"
    by (rule t[THEN mp, OF conjI[OF k r], THEN conjunct2, THEN spec, THEN mp, OF e,
              THEN conjunct2, THEN conjunct2])
  then have "set (errorStrings (PrimingError [(3, ''bad key'')])) =
       {fmt_d i @ '': '' @ msg | i msg. map_of [(3::int, ''bad key'')] i = Some msg}"
    by (simp only: keySortableE.simps)
  with k r e s show ?thesis by (simp only: simp_thms)
qed

section \<open>Primed adapters over the slices of the tests\<close>

text \<open>
  On a primed adapter \<open>Key\<close> and \<open>Less\<close> answer from the memo what the collection's own
  comparator answers, and \<open>Swap\<close> keeps the adapter primed.
\<close>

lemma Key_primed:
  assumes "primed ks"
  shows "Key ByIntKey i ks =
           (if in_range i (wrapped ks) then Some ((IntKey (wrapped ks ! nat i), None), ks)
            else None)"
proof (cases "in_range i (wrapped ks)")
  case False
  with assms have "index (swaps ks) i = None"
    by (simp add: index_def in_range_def primed_def)
  with False show ?thesis by (simp add: Key_def)
next
  case True
  with assms have "index (swaps ks) i = Some (swaps ks ! nat i)"
    "map_of (memo ks) (swaps ks ! nat i) = Some (IntKey (wrapped ks ! nat i))"
    by (auto simp: index_def in_range_def primed_def)
  with True show ?thesis by (simp add: Key_hit)
qed

lemma Less_primed:
  assumes "primed ks"
  shows "Less ByIntKey i j ks = map_option (\<lambda>b. (b, ks)) (ByIntKey_Less (wrapped ks) i j)"
  by (simp add: Less_def Key_primed[OF assms] ByIntKey_Less_def SpecimenSliceSorter_At_def
        index_def ByIntKey_methods ByIntKey_LessVal_def)

lemma Swap_primed:
  assumes "primed ks"
  shows "Swap ByIntKey i j ks =
           (case SpecimenSliceSorter_Swap (wrapped ks) i j of
              None \<Rightarrow> None
            | Some w' \<Rightarrow>
                Some (ks\<lparr>swaps := (swaps ks)[nat i := swaps ks ! nat j, nat j := swaps ks ! nat i],
                        wrapped := w'\<rparr>))"
  using assms
  by (simp add: Swap_def SpecimenSliceSorter_Swap_def index_def in_range_def primed_def
        ByIntKey_methods)

lemma Swap_keeps_primed:
  assumes "primed ks" "Swap ByIntKey i j ks = Some ks'"
  shows "primed ks'"
proof -
  let ?a = "nat i" and ?b = "nat j"
  from assms(2) have r: "?a < length (swaps ks)" "?b < length (swaps ks)"
    and sw: "swaps ks' = (swaps ks)[?a := swaps ks ! ?b, ?b := swaps ks ! ?a]"
    and m: "memo ks' = memo ks"
    and w: "SpecimenSliceSorter_Swap (wrapped ks) i j = Some (wrapped ks')"
    by (auto simp: Swap_Some in_range_nat ByIntKey_methods)
  from assms(1) have l: "length (swaps ks) = length (wrapped ks)" by (simp add: primed_def)
  from w have wr: "wrapped ks' = (wrapped ks)[?a := wrapped ks ! ?b, ?b := wrapped ks ! ?a]"
    by (auto simp: SpecimenSliceSorter_Swap_def index_def split: if_splits)
  have "map_of (memo ks') (swaps ks' ! p) = Some (IntKey (wrapped ks' ! p))"
    if "p < length (wrapped ks')" for p
  proof -
    from that wr have p: "p < length (wrapped ks)" by simp
    from assms(1) have k: "\<And>q. q < length (wrapped ks) \<Longrightarrow>
        map_of (memo ks) (swaps ks ! q) = Some (IntKey (wrapped ks ! q))"
      by (simp add: primed_def)
    show ?thesis
      using p r l k[of p] k[of ?a] k[of ?b]
      by (auto simp: sw wr m nth_list_update)
  qed
  with l sw wr show ?thesis by (simp add: primed_def)
qed

text \<open>So a sort run through a primed adapter moves the collection as the sort run directly.\<close>

lemma run_sorter_primed:
  "primed ks \<Longrightarrow>
     map_option wrapped (run_sorter (keySortable_sort ByIntKey) t ks)
       = run_sorter ByIntKey_sort t (wrapped ks)"
proof (induction t arbitrary: ks)
  case Done
  then show ?case by simp
next
  case (DoSwap i j t)
  show ?case
  proof (cases "Swap ByIntKey i j ks")
    case None
    with DoSwap.prems show ?thesis
      by (simp add: keySortable_sort_def ByIntKey_sort_def Swap_primed split: option.splits)
  next
    case (Some ks')
    from Swap_keeps_primed[OF DoSwap.prems Some] have p: "primed ks'" .
    from Some DoSwap.prems have "SpecimenSliceSorter_Swap (wrapped ks) i j = Some (wrapped ks')"
      by (auto simp: Swap_primed split: option.splits)
    with Some DoSwap.IH[OF p] show ?thesis
      by (simp add: keySortable_sort_def ByIntKey_sort_def)
  qed
next
  case (DoLess i j yes no)
  show ?case
  proof (cases "ByIntKey_Less (wrapped ks) i j")
    case None
    with DoLess.prems show ?thesis
      by (simp add: keySortable_sort_def ByIntKey_sort_def Less_primed)
  next
    case (Some b)
    with DoLess.prems DoLess.IH(1)[OF DoLess.prems] DoLess.IH(2)[OF DoLess.prems]
    show ?thesis
      by (simp add: keySortable_sort_def ByIntKey_sort_def Less_primed)
  qed
qed

text \<open>\<open>prime\<close> resolves the positions in order, each from the slot it still occupies.\<close>

lemma resolve_each_fills:
  assumes "j = int (length s) - 1" "0 \<le> k"
    and "swaps ks = map int [0 ..< length s]" "wrapped ks = s"
    and "\<forall>x. map_of (memo ks) x =
           (if 0 \<le> x \<and> x < k \<and> x \<le> j then Some (IntKey (s ! nat x)) else None)"
  shows "\<exists>ks'. resolve_each ByIntKey [k .. j] ks = Some ks'
           \<and> swaps ks' = swaps ks \<and> wrapped ks' = s
           \<and> (\<forall>x. 0 \<le> x \<and> x \<le> j \<longrightarrow> map_of (memo ks') x = Some (IntKey (s ! nat x)))"
  using assms
proof (induction k j arbitrary: ks rule: upto.induct)
  case (1 k j)
  show ?case
  proof (cases "k \<le> j")
    case False
    with "1.prems" show ?thesis by auto
  next
    case True
    with "1.prems" have r: "nat k < length s" by auto
    with "1.prems" have ix: "index (swaps ks) k = Some k"
      by (simp add: index_def in_range_def)
    from "1.prems"(5) have miss: "map_of (memo ks) k = None" by simp
    from r "1.prems"(2) have kw: "Key_w ByIntKey s k = Some (IntKey (s ! nat k), None)"
      by (simp add: ByIntKey_methods ByIntKey_Key_def SpecimenSliceSorter_At_def index_def
            in_range_def)
    let ?ks1 = "ks\<lparr>memo := AList.update k (IntKey (s ! nat k)) (memo ks),
                     calls := calls ks @ [k]\<rparr>"
    from ix miss kw "1.prems"(4)
    have key: "Key ByIntKey k ks = Some ((IntKey (s ! nat k), None), ?ks1)"
      by (simp add: Key_def)
    have inv: "\<forall>x. map_of (memo ?ks1) x =
           (if 0 \<le> x \<and> x < k + 1 \<and> x \<le> j then Some (IntKey (s ! nat x)) else None)"
      using "1.prems"(2,5) True by (auto simp: update_conv')
    from "1.IH"[OF True "1.prems"(1) _ _ _ inv] "1.prems"(2,3,4)
    obtain ks' where
      "resolve_each ByIntKey [k + 1 .. j] ?ks1 = Some ks'" "swaps ks' = swaps ks"
      "wrapped ks' = s"
      "\<forall>x. 0 \<le> x \<and> x \<le> j \<longrightarrow> map_of (memo ks') x = Some (IntKey (s ! nat x))"
      by auto
    with key True show ?thesis by (simp add: upto_rec1)
  qed
qed

lemma PrimedKeysort_primed:
  "\<exists>ks. PrimedKeysort ByIntKey s parallelism = Some ks \<and> wrapped ks = s \<and> primed ks"
proof -
  let ?ks0 = "\<lparr>wrapped = s, swaps = map int [0 ..< length s], memo = ([]::(int \<times> int) list),
               calls = ([]::int list)\<rparr>"
  have k: "Keysort ByIntKey s = Some ?ks0"
    by (simp add: Keysort_eq ByIntKey_methods SpecimenSliceSorter_Len_def)
  have "\<forall>x. map_of (memo ?ks0) x =
           (if 0 \<le> x \<and> x < 0 \<and> x \<le> int (length s) - 1 then Some (IntKey (s ! nat x))
            else None)"
    by simp
  from resolve_each_fills[OF refl _ _ _ this]
  obtain ks where ks: "resolve_each ByIntKey [0 .. int (length s) - 1] ?ks0 = Some ks"
    "swaps ks = map int [0 ..< length s]" "wrapped ks = s"
    "\<forall>x. 0 \<le> x \<and> x \<le> int (length s) - 1 \<longrightarrow> map_of (memo ks) x = Some (IntKey (s ! nat x))"
    by auto
  have "primed ks"
    unfolding primed_def using ks(2,3,4) by auto
  moreover have "PrimedKeysort ByIntKey s parallelism = Some ks"
    using k ks(1)
    by (simp add: PrimedKeysort_def prime_def Len_def ByIntKey_methods
          SpecimenSliceSorter_Len_def)
  ultimately show ?thesis using ks(3) by blast
qed

text \<open>
  The refinement that fails for \<open>Keysort\<close> holds for \<open>PrimedKeysort\<close>: for every slice, every
  parallelism and every deterministic sort, sorting through the primed adapter leaves the
  collection as sorting it directly with \<^verbatim>\<open>ByIntKey.Less\<close> does (and panics when that does).
\<close>

lemma primed_sort_agrees:
  "map_option wrapped
     (case PrimedKeysort ByIntKey s parallelism of
        None \<Rightarrow> None
      | Some ks \<Rightarrow> Sort alg (keySortable_sort ByIntKey) ks)
   = Sort alg ByIntKey_sort s"
proof -
  from PrimedKeysort_primed[of s parallelism]
  obtain ks where ks: "PrimedKeysort ByIntKey s parallelism = Some ks" "wrapped ks = s"
    "primed ks"
    by blast
  have "sort_Len (keySortable_sort ByIntKey) ks = sort_Len ByIntKey_sort s"
    using ks(2)
    by (simp add: keySortable_sort_def ByIntKey_sort_def Len_def ByIntKey_methods)
  with ks run_sorter_primed[OF ks(3)] show ?thesis by (simp add: Sort_def)
qed

text \<open>
  \<open>PrimedKeysortE\<close> is \<open>KeysortE\<close> followed by one \<open>memoize\<close> call, so the statements about
  adapters built by \<open>KeysortE\<close> and used through any calls cover primed adapters as well.
\<close>

lemma PrimedKeysortE_as_calls:
  "PrimedKeysortE I w parallelism =
     (case KeysortE I w of
        None \<Rightarrow> None
      | Some ks \<Rightarrow> do_callsE I [Memoize_Call parallelism (allIndexes I ks)] ks)"
  by (simp add: PrimedKeysortE_def memoize_def split: option.splits)

text \<open>On the slices of the tests a \<open>Swap\<close> of two positions in range returns.\<close>

lemma Swap_slices_returns:
  assumes "length (swaps ks) = length (wrapped ks)" "in_range i (swaps ks)" "in_range j (swaps ks)"
  shows "\<exists>ks'. Swap ByIntKey i j ks = Some ks' \<and> length (swaps ks') = length (wrapped ks')
           \<and> length (swaps ks') = length (swaps ks)"
  using assms
  by (simp add: Swap_def index_def in_range_def ByIntKey_methods SpecimenSliceSorter_Swap_def)

lemma swap_each_slices_returns:
  assumes "length (swaps ks) = length (wrapped ks)"
    and "\<forall>(i, j) \<in> set ps. in_range i (swaps ks) \<and> in_range j (swaps ks)"
  shows "\<exists>ks'. swap_each ByIntKey ps ks = Some ks'"
  using assms
proof (induction ps arbitrary: ks)
  case Nil
  then show ?case by simp
next
  case (Cons p ps)
  obtain i j where p: "p = (i, j)" by (cases p)
  with Cons.prems have r: "in_range i (swaps ks)" "in_range j (swaps ks)" by auto
  from Swap_slices_returns[OF Cons.prems(1) r]
  obtain ks1 where s: "Swap ByIntKey i j ks = Some ks1"
    "length (swaps ks1) = length (wrapped ks1)" "length (swaps ks1) = length (swaps ks)"
    by blast
  from Cons.prems(2) s(3) have "\<forall>(i, j) \<in> set ps. in_range i (swaps ks1) \<and> in_range j (swaps ks1)"
    by (auto simp: in_range_def)
  from Cons.IH[OF s(2) this] s(1) p show ?case by simp
qed

section \<open>Key functions that do not depend on the arrangement\<close>

lemma Key_memo_of:
  assumes "memo_of I w ks" "Key I i ks = Some ((v, e), ks')"
  shows "memo_of I w ks' \<and> (\<exists>oi e'. index (swaps ks) i = Some oi \<and> Key_w I w oi = Some (v, e'))"
  using assms unfolding Key_Some memo_of_def
  by (auto simp: update_conv' split: if_splits)

lemma Less_memo_of:
  assumes "memo_of I w ks" "Less I i j ks = Some (b, ks')"
  shows "memo_of I w ks'"
  using assms unfolding Less_Some by (blast dest: Key_memo_of)

lemma Swap_memo_of:
  assumes "arrangement_free I" "memo_of I w ks" "Swap I i j ks = Some ks'"
  shows "memo_of I w ks'"
proof -
  from assms(3) obtain w' where w': "Swap_w I (wrapped ks) i j = Some w'"
    "wrapped ks' = w'" "memo ks' = memo ks"
    by (auto simp: Swap_Some)
  from assms(1) w'(1) have "Key_w I w' = Key_w I (wrapped ks)"
    unfolding arrangement_free_def by blast
  with assms(2) w'(2,3) show ?thesis by (simp add: memo_of_def)
qed

lemma do_calls_memo_of:
  "arrangement_free I \<Longrightarrow> memo_of I w ks \<Longrightarrow> do_calls I cs ks = Some ks' \<Longrightarrow> memo_of I w ks'"
proof (induction cs arbitrary: ks)
  case Nil
  then show ?case by simp
next
  case (Cons c cs)
  then obtain ks1 where s: "do_call I c ks = Some ks1" "do_calls I cs ks1 = Some ks'"
    by (auto split: option.splits)
  have "memo_of I w ks1"
  proof (cases c)
    case (KeyCall i)
    with s(1) obtain r where "Key I i ks = Some (r, ks1)" by auto
    with Cons.prems(2) show ?thesis by (cases r) (blast dest: Key_memo_of)
  next
    case (LessCall i j)
    with s(1) obtain b where "Less I i j ks = Some (b, ks1)" by auto
    with Cons.prems(2) show ?thesis by (blast dest: Less_memo_of)
  next
    case (SwapCall i j)
    with s(1) Cons.prems(1,2) show ?thesis by (auto dest: Swap_memo_of)
  qed
  from Cons.IH[OF Cons.prems(1) this s(2)] show ?case .
qed

text \<open>
  For such a collection the adapter without priming is right as well: after any calls,
  \<open>Key\<close> at a position returns what the key function gave for the original index of the
  element at that position.
\<close>

lemma Key_of_original_index:
  assumes "arrangement_free I" "Keysort I w = Some ks0" "do_calls I cs ks0 = Some ks"
    and "Key I i ks = Some ((v, e), ks')"
  shows "\<exists>oi e'. index (swaps ks) i = Some oi \<and> Key_w I w oi = Some (v, e')"
proof -
  from assms(2) have "memo_of I w ks0" by (auto simp: Keysort_Some memo_of_def)
  from do_calls_memo_of[OF assms(1) this assms(3)] have "memo_of I w ks" .
  from Key_memo_of[OF this assms(4)] show ?thesis by blast
qed

end
